theory Spec2Isabelle
  imports Complex_Main "HOL-Library.Log_Nat" "HOL-Library.Multiset"
begin

section \<open>JavaScript numbers\<close>

text \<open>
  The converter computes with JavaScript \<open>number\<close>s, the IEEE 754 double-precision
  floats. A finite double is modelled by the real it denotes, and every arithmetic
  operation rounds its exact result to the nearest double, ties to the even
  significand: 53 significant bits, the multiples of \<open>2^-1074\<close> below \<open>2^-1021\<close>
  (subnormal numbers included), and an infinity from \<open>2^1024\<close> on. \<open>NaN\<close> and the
  infinities are kept, because the layout code can produce them: a property that is
  missing reads as \<open>undefined\<close>, and \<open>undefined - m\<close> is \<open>NaN\<close>; a division by an
  image dimension 0 is an infinity or \<open>NaN\<close>. The sign of a zero is not tracked: a zero
  divisor is read as \<open>+0\<close>.
\<close>

text \<open>The integer nearest to \<open>q\<close>, the even one of two that are equally near.\<close>

definition round_half_even :: "real \<Rightarrow> int" where
  "round_half_even q =
    (let f = \<lfloor>q\<rfloor>; d = q - of_int f
     in if d < 1 / 2 then f else if 1 / 2 < d then f + 1 else if even f then f else f + 1)"

text \<open>The number of smallest subnormal steps in 1.\<close>

definition units :: real where
  "units = 2 ^ 1074"

text \<open>
  The double nearest to \<open>x\<close>, were the exponent unbounded above: \<open>x\<close> is counted in
  steps of \<open>2^-1074\<close>, the count is cut to 53 bits by dropping its \<open>s\<close> low bits, and
  what is dropped is rounded.
\<close>

definition rnd :: "real \<Rightarrow> real" where
  "rnd x =
    (let y = x * units; s = nat (bitlen \<lfloor>\<bar>y\<bar>\<rfloor> - 53)
     in of_int (round_half_even (y / 2 ^ s)) * 2 ^ s / units)"

datatype number = Fin real | PosInf | NegInf | NaN

definition huge :: real where
  "huge = 2 ^ 1024"

text \<open>The double that an exact result \<open>x\<close> becomes.\<close>

definition fl :: "real \<Rightarrow> number" where
  "fl x = (let r = rnd x in if huge \<le> \<bar>r\<bar> then (if 0 < x then PosInf else NegInf) else Fin r)"

fun neg :: "number \<Rightarrow> number" where
  "neg (Fin a) = Fin (- a)"
| "neg PosInf = NegInf"
| "neg NegInf = PosInf"
| "neg NaN = NaN"

text \<open>\<open>a + b\<close>\<close>

fun add :: "number \<Rightarrow> number \<Rightarrow> number" where
  "add NaN _ = NaN"
| "add _ NaN = NaN"
| "add (Fin a) (Fin b) = fl (a + b)"
| "add PosInf NegInf = NaN"
| "add NegInf PosInf = NaN"
| "add PosInf _ = PosInf"
| "add _ PosInf = PosInf"
| "add NegInf _ = NegInf"
| "add _ NegInf = NegInf"

text \<open>\<open>a - b\<close>\<close>

definition sub :: "number \<Rightarrow> number \<Rightarrow> number" where
  "sub a b = add a (neg b)"

text \<open>The infinity of the sign of \<open>s\<close>; \<open>NaN\<close> for \<open>s = 0\<close> (as in \<open>Infinity * 0\<close>).\<close>

definition inf_of_sign :: "real \<Rightarrow> number" where
  "inf_of_sign s = (if s = 0 then NaN else if 0 < s then PosInf else NegInf)"

text \<open>\<open>a * b\<close>\<close>

fun mul :: "number \<Rightarrow> number \<Rightarrow> number" where
  "mul NaN _ = NaN"
| "mul _ NaN = NaN"
| "mul (Fin a) (Fin b) = fl (a * b)"
| "mul PosInf (Fin b) = inf_of_sign b"
| "mul NegInf (Fin b) = inf_of_sign (- b)"
| "mul (Fin a) PosInf = inf_of_sign a"
| "mul (Fin a) NegInf = inf_of_sign (- a)"
| "mul PosInf PosInf = PosInf"
| "mul NegInf NegInf = PosInf"
| "mul PosInf NegInf = NegInf"
| "mul NegInf PosInf = NegInf"

text \<open>\<open>a / b\<close>: \<open>0 / 0\<close> is \<open>NaN\<close>, \<open>a / 0\<close> the infinity of the sign of \<open>a\<close>.\<close>

fun divide_js :: "number \<Rightarrow> number \<Rightarrow> number" where
  "divide_js NaN _ = NaN"
| "divide_js _ NaN = NaN"
| "divide_js (Fin a) (Fin b) = (if b = 0 then inf_of_sign a else fl (a / b))"
| "divide_js (Fin a) PosInf = Fin 0"
| "divide_js (Fin a) NegInf = Fin 0"
| "divide_js PosInf (Fin b) = (if 0 \<le> b then PosInf else NegInf)"
| "divide_js NegInf (Fin b) = (if 0 \<le> b then NegInf else PosInf)"
| "divide_js _ _ = NaN"

text \<open>\<open>Math.max(a, b)\<close> and \<open>Math.min(a, b)\<close>: \<open>NaN\<close> when either argument is.\<close>

fun Math_max :: "number \<Rightarrow> number \<Rightarrow> number" where
  "Math_max NaN _ = NaN"
| "Math_max _ NaN = NaN"
| "Math_max (Fin a) (Fin b) = Fin (max a b)"
| "Math_max PosInf _ = PosInf"
| "Math_max _ PosInf = PosInf"
| "Math_max NegInf b = b"
| "Math_max a NegInf = a"

fun Math_min :: "number \<Rightarrow> number \<Rightarrow> number" where
  "Math_min NaN _ = NaN"
| "Math_min _ NaN = NaN"
| "Math_min (Fin a) (Fin b) = Fin (min a b)"
| "Math_min NegInf _ = NegInf"
| "Math_min _ NegInf = NegInf"
| "Math_min PosInf b = b"
| "Math_min a PosInf = a"

text \<open>\<open>a || d\<close> on a number: \<open>0\<close> and \<open>NaN\<close> are falsy.\<close>

definition or_default :: "number \<Rightarrow> number \<Rightarrow> number" where
  "or_default a d = (if a = NaN \<or> a = Fin 0 then d else a)"

text \<open>A value read from a property: \<open>None\<close> is \<open>undefined\<close>, which arithmetic
  converts to \<open>NaN\<close>.\<close>

definition to_number :: "number option \<Rightarrow> number" where
  "to_number v = (case v of None \<Rightarrow> NaN | Some n \<Rightarrow> n)"

text \<open>The order of two numbers, and the sign that a \<open>sort\<close> reads off a comparison
  result (\<open>NaN\<close> counts as 0).\<close>

fun less_number :: "number \<Rightarrow> number \<Rightarrow> bool" where
  "less_number (Fin a) (Fin b) = (a < b)"
| "less_number (Fin a) PosInf = True"
| "less_number NegInf (Fin b) = True"
| "less_number NegInf PosInf = True"
| "less_number _ _ = False"

fun sign_js :: "number \<Rightarrow> int" where
  "sign_js (Fin a) = (if a < 0 then - 1 else if 0 < a then 1 else 0)"
| "sign_js PosInf = 1"
| "sign_js NegInf = - 1"
| "sign_js NaN = 0"

section \<open>Data model\<close>

record PageFormat =
  pf_width :: real
  pf_height :: real

record CustomMargin =
  m_top :: number
  m_bottom :: number
  m_left :: number
  m_right :: number

record ImageDimensions =
  dim_width :: number
  dim_height :: number

record LayoutInfo =
  l_width :: number
  l_height :: number
  l_x :: number
  l_y :: number
  l_pageWidth :: "number option"
  l_pageHeight :: "number option"
  l_fillMode :: string

text \<open>
  The fields of \<open>Config\<close> that the layout and the document assembly read.
  \<open>customMargin\<close> is \<open>None\<close> when the merged configuration holds no object there
  (a JSON \<open>null\<close>, which the code replaces by a default).
\<close>

record Config =
  supportedFormats :: "string list"
  pageSize :: string
  minimumMargin :: number
  fillMode :: string
  customMargin :: "CustomMargin option"
  preCompressImages :: bool
  backgroundColor :: string

section \<open>PageFormatTable\<close>

text \<open>
  The object literal assigned to \<open>this.pageFormats\<close> in the constructor. A decimal
  literal denotes the double nearest to it.
\<close>

definition pageFormats :: "(string \<times> PageFormat) list" where
  "pageFormats =
    [(''A4'', \<lparr>pf_width = rnd 595.28, pf_height = rnd 841.89\<rparr>),
     (''A3'', \<lparr>pf_width = rnd 841.89, pf_height = rnd 1190.55\<rparr>),
     (''Letter'', \<lparr>pf_width = 612, pf_height = 792\<rparr>),
     (''Legal'', \<lparr>pf_width = 612, pf_height = 1008\<rparr>)]"

text \<open>
  \<open>this.pageFormats[pageFormat]\<close> is a property read on a plain object, so a name
  that is not an own key is looked up on \<open>Object.prototype\<close>. These are its
  property names; each holds a function (or, for \<open>__proto__\<close>, the prototype object),
  a truthy value without \<open>width\<close> or \<open>height\<close>.
\<close>

definition objectPrototypeKeys :: "string list" where
  "objectPrototypeKeys =
    [''constructor'', ''hasOwnProperty'', ''isPrototypeOf'', ''propertyIsEnumerable'',
     ''toLocaleString'', ''toString'', ''valueOf'', ''__proto__'',
     ''__defineGetter__'', ''__defineSetter__'', ''__lookupGetter__'', ''__lookupSetter__'']"

datatype page_value = OwnFormat PageFormat | Inherited | Undefined

definition page_lookup :: "string \<Rightarrow> page_value" where
  "page_lookup pageFormat =
    (case map_of pageFormats pageFormat of
       Some p \<Rightarrow> OwnFormat p
     | None \<Rightarrow> if pageFormat \<in> set objectPrototypeKeys then Inherited else Undefined)"

text \<open>\<open>page.width\<close> and \<open>page.height\<close> on a truthy \<open>page\<close>.\<close>

fun page_width :: "page_value \<Rightarrow> number option" where
  "page_width (OwnFormat p) = Some (Fin (pf_width p))"
| "page_width _ = None"

fun page_height :: "page_value \<Rightarrow> number option" where
  "page_height (OwnFormat p) = Some (Fin (pf_height p))"
| "page_height _ = None"

section \<open>LayoutCalculator\<close>

datatype error = UnknownPageFormat string

definition defaultCustomMargin :: CustomMargin where
  "defaultCustomMargin = \<lparr>m_top = Fin 10, m_bottom = Fin 10, m_left = Fin 0, m_right = Fin 0\<rparr>"

text \<open>
  \<open>calculateOptimalLayout(imgWidth, imgHeight, pageFormat)\<close>, with the configuration
  of the converter as first argument. \<open>Inl\<close> is the thrown \<open>Error\<close>. The \<open>switch\<close>
  compares the fill mode with \<open>===\<close>; \<open>"fit"\<close> shares the \<open>default\<close> branch.
\<close>

definition calculateOptimalLayout ::
  "Config \<Rightarrow> number \<Rightarrow> number \<Rightarrow> string \<Rightarrow> error + LayoutInfo" where
  "calculateOptimalLayout c imgWidth imgHeight pageFormat =
    (let page = page_lookup pageFormat in
     if page = Undefined then Inl (UnknownPageFormat pageFormat)
     else
       let margin = or_default (minimumMargin c) (Fin 0);
           (finalWidth, finalHeight, x, y) =
             (if fillMode c = ''custom'' then
                let cm = (case customMargin c of Some m \<Rightarrow> m | None \<Rightarrow> defaultCustomMargin);
                    pageWidth = sub (sub (to_number (page_width page)) (m_left cm)) (m_right cm);
                    pageHeight = sub (sub (to_number (page_height page)) (m_top cm)) (m_bottom cm)
                in (pageWidth, pageHeight, m_left cm, m_top cm)
              else if fillMode c = ''stretch'' then
                let pageWidth = sub (to_number (page_width page)) (mul margin (Fin 2));
                    pageHeight = sub (to_number (page_height page)) (mul margin (Fin 2))
                in (pageWidth, pageHeight, margin, margin)
              else if fillMode c = ''crop'' then
                let pageWidth = sub (to_number (page_width page)) (mul margin (Fin 2));
                    pageHeight = sub (to_number (page_height page)) (mul margin (Fin 2));
                    scaleWidth = divide_js pageWidth imgWidth;
                    scaleHeight = divide_js pageHeight imgHeight;
                    scale = Math_max scaleWidth scaleHeight;
                    finalWidth = mul imgWidth scale;
                    finalHeight = mul imgHeight scale
                in (finalWidth, finalHeight,
                    add margin (divide_js (sub pageWidth finalWidth) (Fin 2)),
                    add margin (divide_js (sub pageHeight finalHeight) (Fin 2)))
              else
                let pageWidth = sub (to_number (page_width page)) (mul margin (Fin 2));
                    pageHeight = sub (to_number (page_height page)) (mul margin (Fin 2));
                    scaleW = divide_js pageWidth imgWidth;
                    scaleH = divide_js pageHeight imgHeight;
                    scaleMin = Math_min scaleW scaleH;
                    finalWidth = mul imgWidth scaleMin;
                    finalHeight = mul imgHeight scaleMin
                in (finalWidth, finalHeight,
                    add margin (divide_js (sub pageWidth finalWidth) (Fin 2)),
                    add margin (divide_js (sub pageHeight finalHeight) (Fin 2))))
       in Inr \<lparr>l_width = finalWidth, l_height = finalHeight, l_x = x, l_y = y,
                l_pageWidth = page_width page, l_pageHeight = page_height page,
                l_fillMode = fillMode c\<rparr>)"

section \<open>Ordering of a group: \<open>getImageFiles\<close>\<close>

record Stats =
  st_size :: nat

record ImageFile =
  img_name :: string
  img_fullPath :: string
  img_stats :: Stats
  img_originalPath :: "string option"
  img_compressed :: "bool option"

text \<open>
  \<open>name.match(/\d+/)?.[0]\<close>: the first maximal run of the digits \<open>0\<close> to \<open>9\<close>,
  \<open>None\<close> (\<open>undefined\<close>) when the name has no digit. A name is the sequence of its
  code units; the digits are single units in every encoding.
\<close>

definition is_digit :: "char \<Rightarrow> bool" where
  "is_digit ch = (ch \<in> set ''0123456789'')"

definition first_digits :: "string \<Rightarrow> string option" where
  "first_digits s =
    (let rest = dropWhile (\<lambda>ch. \<not> is_digit ch) s
     in if rest = [] then None else Some (takeWhile is_digit rest))"

text \<open>The integer that a string of decimal digits denotes.\<close>

definition decimal :: "string \<Rightarrow> int" where
  "decimal ds = foldl (\<lambda>n ch. 10 * n + (of_char ch - 48)) 0 ds"

text \<open>
  \<open>parseInt\<close> on a string of decimal digits returns a \<open>number\<close>: the double nearest
  to the integer, so integers above \<open>2^53\<close> are rounded, and \<open>Infinity\<close> from 309
  digits on. (Beyond 20 significant digits the language lets an implementation read
  the later digits as 0 before it rounds; here the digits are taken as they are.)
\<close>

definition parseInt :: "string \<Rightarrow> number" where
  "parseInt ds = fl (of_int (decimal ds))"

definition numKey :: "string \<Rightarrow> number" where
  "numKey nm = parseInt (case first_digits nm of None \<Rightarrow> ''0'' | Some ds \<Rightarrow> ds)"

text \<open>
  The comparison function passed to \<open>sort\<close>, which reads only the sign of its
  result. \<open>localeCompare\<close> stands for
  \<open>a.localeCompare(b, "zh-TW", {numeric: true})\<close>, the collation of the runtime.
\<close>

definition compareFiles :: "(string \<Rightarrow> string \<Rightarrow> int) \<Rightarrow> ImageFile \<Rightarrow> ImageFile \<Rightarrow> int" where
  "compareFiles localeCompare a b =
    (let numA = numKey (img_name a); numB = numKey (img_name b)
     in if numA \<noteq> numB then sign_js (sub numA numB)
        else localeCompare (img_name a) (img_name b))"

text \<open>
  \<open>Array.prototype.sort\<close> with a comparison function: the language guarantees a
  stable sort, so for a consistent comparison the result is the one that straight
  insertion gives.
\<close>

fun insert_by :: "('a \<Rightarrow> 'a \<Rightarrow> int) \<Rightarrow> 'a \<Rightarrow> 'a list \<Rightarrow> 'a list" where
  "insert_by cmp a [] = [a]"
| "insert_by cmp a (b # bs) = (if cmp a b \<le> 0 then a # b # bs else b # insert_by cmp a bs)"

fun sort_by :: "('a \<Rightarrow> 'a \<Rightarrow> int) \<Rightarrow> 'a list \<Rightarrow> 'a list" where
  "sort_by cmp [] = []"
| "sort_by cmp (a # as) = insert_by cmp a (sort_by cmp as)"

text \<open>
  \<open>path.join(dir, file)\<close> of the POSIX path library: the non-empty arguments are
  joined with a slash and the result is normalised, which drops empty and \<open>.\<close>
  segments and resolves \<open>..\<close> segments.
\<close>

fun split_on :: "char \<Rightarrow> string \<Rightarrow> string list" where
  "split_on c [] = [[]]"
| "split_on c (x # xs) =
    (if x = c then [] # split_on c xs
     else (case split_on c xs of [] \<Rightarrow> [[x]] | seg # segs \<Rightarrow> (x # seg) # segs))"

text \<open>The segments kept so far are in \<open>acc\<close>, the last one first.\<close>

fun normalize_segments :: "bool \<Rightarrow> string list \<Rightarrow> string list \<Rightarrow> string list" where
  "normalize_segments allowAboveRoot acc [] = rev acc"
| "normalize_segments allowAboveRoot acc (seg # segs) =
    (if seg = [] \<or> seg = ''.'' then normalize_segments allowAboveRoot acc segs
     else if seg = ''..'' then
       (if acc \<noteq> [] \<and> hd acc \<noteq> ''..'' then normalize_segments allowAboveRoot (tl acc) segs
        else if allowAboveRoot then normalize_segments allowAboveRoot (seg # acc) segs
        else normalize_segments allowAboveRoot acc segs)
     else normalize_segments allowAboveRoot (seg # acc) segs)"

fun join_segments :: "string list \<Rightarrow> string" where
  "join_segments [] = []"
| "join_segments [seg] = seg"
| "join_segments (seg # segs) = seg @ ''/'' @ join_segments segs"

definition path_normalize :: "string \<Rightarrow> string" where
  "path_normalize p =
    (if p = [] then ''.''
     else
       let isAbsolute = (hd p = CHR ''/'');
           trailingSeparator = (last p = CHR ''/'');
           q = join_segments (normalize_segments (\<not> isAbsolute) [] (split_on (CHR ''/'') p))
       in if q = [] then (if isAbsolute then ''/'' else if trailingSeparator then ''./'' else ''.'')
          else (if isAbsolute then ''/'' else []) @ q @ (if trailingSeparator then ''/'' else []))"

definition path_join :: "string \<Rightarrow> string \<Rightarrow> string" where
  "path_join dir file =
    (if dir = [] \<and> file = [] then ''.''
     else if dir = [] then path_normalize file
     else if file = [] then path_normalize dir
     else path_normalize (dir @ ''/'' @ file))"

text \<open>
  The file system as \<open>getImageFiles\<close> sees it: \<open>readdirSync\<close> and \<open>statSync\<close> return
  \<open>None\<close> when they throw, and \<open>extname_lower\<close> is
  \<open>path.extname(file).toLowerCase()\<close>.
\<close>

record Disk =
  readdirSync :: "string \<Rightarrow> string list option"
  statSync :: "string \<Rightarrow> Stats option"
  extname_lower :: "string \<Rightarrow> string"
  localeCompare :: "string \<Rightarrow> string \<Rightarrow> int"

text \<open>
  \<open>getImageFiles(dir)\<close>: filter by extension, build the records (\<open>toImageFile\<close> is the
  function given to \<open>map\<close>), sort. Any exception (of \<open>readdirSync\<close>, or of \<open>statSync\<close>
  on a file that passed the filter) is caught and the result is the empty list.
\<close>

definition toImageFile :: "Disk \<Rightarrow> string \<Rightarrow> string \<Rightarrow> ImageFile" where
  "toImageFile d dir file =
    \<lparr>img_name = file, img_fullPath = path_join dir file,
     img_stats = the (statSync d (path_join dir file)),
     img_originalPath = None, img_compressed = None\<rparr>"

definition getImageFiles :: "Disk \<Rightarrow> Config \<Rightarrow> string \<Rightarrow> ImageFile list" where
  "getImageFiles d c dir =
    (case readdirSync d dir of
       None \<Rightarrow> []
     | Some files \<Rightarrow>
         let kept = filter (\<lambda>file. extname_lower d file \<in> set (supportedFormats c)) files
         in if None \<in> set (map (\<lambda>file. statSync d (path_join dir file)) kept) then []
            else sort_by (compareFiles (localeCompare d)) (map (toImageFile d dir) kept))"

section \<open>Document assembly: \<open>createPDF\<close>\<close>

text \<open>
  What the outside world decides during one \<open>createPDF\<close>: whether \<open>sizeOf\<close>
  returns dimensions or throws (\<open>None\<close>), whether compressing a file throws (at the
  first \<open>statSync\<close>, or later in the \<open>sharp\<close> pipeline), the name
  \<open>path.basename(imagePath, ext)\<close>, whether \<open>doc.image\<close> throws for a file, whether
  creating the scratch directory throws, whether the output stream ends with
  \<open>error\<close> instead of \<open>finish\<close>, in which order \<open>readdirSync\<close> lists the entries of
  the scratch directory, and which of the deletions throw. The document writer is
  taken to accept \<open>addPage\<close> and the background fill whenever they are reached; a
  \<open>sharp\<close> pipeline that throws is taken to have written nothing; and the
  \<open>statSync\<close> of a copy just written, and of the finished output file, to succeed.
\<close>

record World =
  sizeOf :: "string \<Rightarrow> ImageDimensions option"
  stat_throws :: "string \<Rightarrow> bool"
  sharp_throws :: "string \<Rightarrow> bool"
  basename :: "string \<Rightarrow> string"
  image_throws :: "string \<Rightarrow> bool"
  mkdir_throws :: bool
  stream_error :: bool
  readdir_throws :: bool
  listing :: "string list \<Rightarrow> string list"
  unlink_throws :: "string \<Rightarrow> bool"
  rmdir_throws :: bool

text \<open>The calls of \<open>console.warn\<close>.\<close>

datatype warning =
  ProbeWarning string | CompressWarning string | SkipImage string | CleanupWarning

text \<open>
  The drawing instructions. An image is drawn from a path; the second argument of
  \<open>DrawImage\<close> records which source image the file at that path held when it was
  drawn.
\<close>

datatype draw_op =
  FillRect number number "number option" "number option" string
| DrawImage string string number number number number

record Page =
  pg_size :: string
  pg_ops :: "draw_op list"

text \<open>
  The state that \<open>createPDF\<close> changes: the entries of the scratch directory, each with
  the source image whose compressed copy it holds (\<open>None\<close> when the directory does
  not exist), the pages of the document, the warnings.
\<close>

record State =
  tempDir :: "(string \<times> string) list option"
  doc :: "Page list"
  warnings :: "warning list"

definition warn :: "warning \<Rightarrow> State \<Rightarrow> State" where
  "warn w s = s\<lparr>warnings := warnings s @ [w]\<rparr>"

text \<open>\<open>path.join(__dirname, "temp_compressed")\<close>, relative to the directory of the module.\<close>

definition tempDirPath :: string where
  "tempDirPath = ''temp_compressed''"

text \<open>
  The source image whose pixels the file at \<open>path\<close> holds: that of the entry for a
  file of the scratch directory, the file itself otherwise.
\<close>

definition file_content :: "State \<Rightarrow> string \<Rightarrow> string" where
  "file_content s path =
    (case tempDir s of
       None \<Rightarrow> path
     | Some entries \<Rightarrow>
         (case find (\<lambda>e. path_join tempDirPath (fst e) = path) entries of
            None \<Rightarrow> path
          | Some e \<Rightarrow> snd e))"

text \<open>\<open>getImageDimensions(imagePath)\<close>\<close>

definition getImageDimensions :: "World \<Rightarrow> string \<Rightarrow> State \<Rightarrow> ImageDimensions \<times> State" where
  "getImageDimensions w imagePath s =
    (case sizeOf w imagePath of
       Some dimensions \<Rightarrow> (dimensions, s)
     | None \<Rightarrow> (\<lparr>dim_width = Fin 800, dim_height = Fin 600\<rparr>, warn (ProbeWarning imagePath) s))"

text \<open>
  \<open>compressImage(imagePath, tempDir)\<close>: the path of the compressed copy, or the
  original path when anything throws. The copy is written to
  \<open>basename_compressed.jpg\<close> in the scratch directory, over any file of that name.
\<close>

definition compressImage :: "World \<Rightarrow> string \<Rightarrow> State \<Rightarrow> string \<times> State" where
  "compressImage w imagePath s =
    (let file = basename w imagePath @ ''_compressed.jpg'';
         outputPath = path_join tempDirPath file
     in if stat_throws w imagePath then (imagePath, warn (CompressWarning imagePath) s)
        else
          let (originalDimensions, s1) = getImageDimensions w imagePath s
          in if sharp_throws w imagePath then (imagePath, warn (CompressWarning imagePath) s1)
             else (outputPath,
                   s1\<lparr>tempDir := map_option
                        (\<lambda>entries. filter (\<lambda>e. fst e \<noteq> file) entries @ [(file, imagePath)])
                        (tempDir s1)\<rparr>))"

text \<open>
  \<open>compressImages(images, tempDir)\<close>, the loop over the group. The sizes that it adds
  up are only printed.
\<close>

fun compressImages :: "World \<Rightarrow> Config \<Rightarrow> ImageFile list \<Rightarrow> State \<Rightarrow> ImageFile list \<times> State" where
  "compressImages w c [] s = ([], s)"
| "compressImages w c (img # images) s =
    (if preCompressImages c then
       let (compressedPath, s1) = compressImage w (img_fullPath img) s;
           (rest, s2) = compressImages w c images s1
       in (\<lparr>img_name = img_name img, img_fullPath = compressedPath,
             img_stats = img_stats img, img_originalPath = Some (img_fullPath img),
             img_compressed = Some (compressedPath \<noteq> img_fullPath img)\<rparr> # rest, s2)
     else
       let (rest, s2) = compressImages w c images s
       in (img # rest, s2))"

text \<open>The document writer: a new page becomes the current one, drawing goes to it.\<close>

definition addPage :: "string \<Rightarrow> State \<Rightarrow> State" where
  "addPage sz s = s\<lparr>doc := doc s @ [\<lparr>pg_size = sz, pg_ops = []\<rparr>]\<rparr>"

definition draw :: "draw_op \<Rightarrow> State \<Rightarrow> State" where
  "draw d s =
    (if doc s = [] then s
     else s\<lparr>doc := butlast (doc s) @ [(last (doc s))\<lparr>pg_ops := pg_ops (last (doc s)) @ [d]\<rparr>]\<rparr>)"

text \<open>
  The body of \<open>compressedImages.forEach\<close>: everything is inside one \<open>try\<close>, whose
  \<open>catch\<close> warns that the image is skipped.
\<close>

definition processImage :: "World \<Rightarrow> Config \<Rightarrow> State \<Rightarrow> ImageFile \<Rightarrow> State" where
  "processImage w c s imageFile =
    (let (imgDimensions, s1) = getImageDimensions w (img_fullPath imageFile) s
     in case calculateOptimalLayout c (dim_width imgDimensions) (dim_height imgDimensions)
               (pageSize c) of
          Inl e \<Rightarrow> warn (SkipImage (img_name imageFile)) s1
        | Inr layout \<Rightarrow>
            let s2 = addPage (pageSize c) s1;
                s3 = draw (FillRect (Fin 0) (Fin 0) (l_pageWidth layout) (l_pageHeight layout)
                             (backgroundColor c)) s2
            in if image_throws w (img_fullPath imageFile)
               then warn (SkipImage (img_name imageFile)) s3
               else draw (DrawImage (img_fullPath imageFile)
                            (file_content s3 (img_fullPath imageFile))
                            (l_x layout) (l_y layout) (l_width layout) (l_height layout)) s3)"

text \<open>
  \<open>tempFiles.forEach(unlinkSync)\<close>: the entries that are left, and whether the loop
  ran to its end (the first deletion that throws ends it).
\<close>

fun unlink_all :: "World \<Rightarrow> string list \<Rightarrow> string list \<times> bool" where
  "unlink_all w [] = ([], True)"
| "unlink_all w (file # files) =
    (if unlink_throws w file then (file # files, False) else unlink_all w files)"

text \<open>The clean-up in the \<open>finish\<close> handler, with its own \<open>try\<close> and \<open>catch\<close>.\<close>

definition cleanup :: "World \<Rightarrow> State \<Rightarrow> State" where
  "cleanup w s =
    (case tempDir s of
       None \<Rightarrow> s
     | Some entries \<Rightarrow>
         if readdir_throws w then warn CleanupWarning s
         else
           let tempFiles = listing w (map fst entries);
               (remaining, finished) = unlink_all w tempFiles
           in if \<not> finished
              then warn CleanupWarning
                     (s\<lparr>tempDir := Some (filter (\<lambda>e. fst e \<in> set remaining) entries)\<rparr>)
              else if rmdir_throws w then warn CleanupWarning (s\<lparr>tempDir := Some []\<rparr>)
              else s\<lparr>tempDir := None\<rparr>)"

datatype outcome = Resolved string | Rejected

text \<open>
  \<open>createPDF(images, outputPath, folderName)\<close>: the settled promise and the state
  it leaves. The pages are composed synchronously, before the stream reports
  \<open>finish\<close> or \<open>error\<close>; the clean-up runs in the \<open>finish\<close> handler only.
\<close>

definition createPDF ::
  "World \<Rightarrow> Config \<Rightarrow> ImageFile list \<Rightarrow> string \<Rightarrow> string \<Rightarrow> State \<Rightarrow> outcome \<times> State" where
  "createPDF w c images outputPath folderName s =
    (if tempDir s = None \<and> mkdir_throws w then (Rejected, s)
     else
       let s1 = (if tempDir s = None then s\<lparr>tempDir := Some []\<rparr> else s);
           (compressedImages, s2) = compressImages w c images s1;
           s3 = s2\<lparr>doc := []\<rparr>;
           s4 = foldl (processImage w c) s3 compressedImages
       in if stream_error w then (Rejected, s4)
          else (Resolved outputPath, cleanup w s4))"

section \<open>The configurations of \<open>config.ts\<close>\<close>

definition defaultConfig :: Config where
  "defaultConfig =
    \<lparr>supportedFormats = [''.jpg'', ''.jpeg'', ''.png'', ''.gif'', ''.bmp'', ''.webp''],
     pageSize = ''A4'', minimumMargin = Fin 0, fillMode = ''custom'',
     customMargin = Some \<lparr>m_top = Fin 15, m_bottom = Fin 15, m_left = Fin 0, m_right = Fin 0\<rparr>,
     preCompressImages = True, backgroundColor = ''#FFFFFF''\<rparr>"

definition highQualityConfig :: Config where
  "highQualityConfig = defaultConfig\<lparr>fillMode := ''fit'', preCompressImages := False\<rparr>"

section \<open>Observations and examples used in the statements\<close>

text \<open>The names in the "skipped image" warnings, in the order they were issued.\<close>

fun skipped :: "warning list \<Rightarrow> string list" where
  "skipped [] = []"
| "skipped (SkipImage nm # ws) = nm # skipped ws"
| "skipped (_ # ws) = skipped ws"

text \<open>The full-page background rectangle of a page of format \<open>p\<close>.\<close>

definition background :: "Config \<Rightarrow> PageFormat \<Rightarrow> draw_op" where
  "background c p =
    FillRect (Fin 0) (Fin 0) (Some (Fin (pf_width p))) (Some (Fin (pf_height p)))
      (backgroundColor c)"

text \<open>The source images that a page shows.\<close>

fun shown_ops :: "draw_op list \<Rightarrow> string list" where
  "shown_ops [] = []"
| "shown_ops (DrawImage path src x y w h # ds) = src # shown_ops ds"
| "shown_ops (_ # ds) = shown_ops ds"

definition shown :: "Page \<Rightarrow> string list" where
  "shown pg = shown_ops (pg_ops pg)"

text \<open>The first integer embedded in a name, 0 when there is none.\<close>

definition firstInteger :: "string \<Rightarrow> int" where
  "firstInteger nm = decimal (case first_digits nm of None \<Rightarrow> ''0'' | Some ds \<Rightarrow> ds)"

text \<open>
  A directory for the examples: five entries, one of them not an image. Its collation
  compares lengths, and its extension is what follows the first dot.
\<close>

definition exampleDisk :: Disk where
  "exampleDisk =
    \<lparr>readdirSync = (\<lambda>dir. if dir = ''scans''
        then Some [''b2.png'', ''a2.jpg'', ''10.jpg'', ''notes.txt'', ''1.jpg''] else None),
     statSync = (\<lambda>p. Some \<lparr>st_size = 1024\<rparr>),
     extname_lower = dropWhile (\<lambda>ch. ch \<noteq> CHR ''.''),
     localeCompare = (\<lambda>a b. int (length a) - int (length b))\<rparr>"

text \<open>
  A directory with two names whose integers lie above \<open>2^53\<close>. Its collation compares
  the first code units that differ, as \<open>localeCompare\<close> does for names that differ in
  their first letter.
\<close>

fun codeUnitCompare :: "string \<Rightarrow> string \<Rightarrow> int" where
  "codeUnitCompare [] [] = 0"
| "codeUnitCompare [] (y # ys) = - 1"
| "codeUnitCompare (x # xs) [] = 1"
| "codeUnitCompare (x # xs) (y # ys) =
    (if x = y then codeUnitCompare xs ys else of_char x - of_char y)"

definition bigDisk :: Disk where
  "bigDisk = exampleDisk\<lparr>readdirSync :=
     (\<lambda>dir. Some [''a9007199254740993.jpg'', ''b9007199254740992.jpg'']),
     localeCompare := codeUnitCompare\<rparr>"

text \<open>
  A world in which nothing fails, every image is 1200 by 1600, and the scratch
  directory is listed in the order its files were written.
\<close>

definition quietWorld :: World where
  "quietWorld =
    \<lparr>sizeOf = (\<lambda>p. Some \<lparr>dim_width = Fin 1200, dim_height = Fin 1600\<rparr>),
     stat_throws = (\<lambda>p. False), sharp_throws = (\<lambda>p. False),
     basename = takeWhile (\<lambda>ch. ch \<noteq> CHR ''.''),
     image_throws = (\<lambda>p. False), mkdir_throws = False, stream_error = False,
     readdir_throws = False, listing = (\<lambda>files. files),
     unlink_throws = (\<lambda>p. False), rmdir_throws = False\<rparr>"

text \<open>A world in which the second scratch file cannot be deleted.\<close>

definition stickyWorld :: World where
  "stickyWorld = quietWorld\<lparr>unlink_throws := (\<lambda>p. p = ''b_compressed.jpg'')\<rparr>"

definition exampleImage :: "string \<Rightarrow> ImageFile" where
  "exampleImage file =
    \<lparr>img_name = file, img_fullPath = file, img_stats = \<lparr>st_size = 1024\<rparr>,
     img_originalPath = None, img_compressed = None\<rparr>"

definition exampleGroup :: "ImageFile list" where
  "exampleGroup = [exampleImage ''a.jpg'', exampleImage ''b.jpg'', exampleImage ''c.jpg'']"

text \<open>Two images with one base name.\<close>

definition clashGroup :: "ImageFile list" where
  "clashGroup = [exampleImage ''a.jpg'', exampleImage ''a.png'']"

definition emptyState :: State where
  "emptyState = \<lparr>tempDir = None, doc = [], warnings = []\<rparr>"

section \<open>Rounding to a double\<close>

text \<open>The grid of the subnormal numbers, and rounding to the nearest integer.\<close>

lemma units_pos: "0 < units"
  by (simp add: units_def)

lemma units_eq: "units = 2 ^ 1022 * 2 ^ 52"
  unfolding units_def by (simp only: flip: power_add) simp

lemma rhe_error: "\<bar>of_int (round_half_even q) - q\<bar> \<le> 1 / 2"
  unfolding round_half_even_def Let_def by (auto simp: abs_if) linarith+

lemma rhe_ge: "of_int k \<le> q \<Longrightarrow> k \<le> round_half_even q"
  unfolding round_half_even_def Let_def by (auto simp: le_floor_iff) linarith+

lemma rhe_le: "q \<le> of_int k \<Longrightarrow> round_half_even q \<le> k"
  unfolding round_half_even_def Let_def
  by (auto simp: le_floor_iff) linarith+

lemma rhe_int [simp]: "round_half_even (of_int k) = k"
  unfolding round_half_even_def Let_def by simp

text \<open>The exponent chosen by rnd.\<close>

lemma shift_bounds:
  fixes y :: real
  defines "s \<equiv> nat (bitlen \<lfloor>\<bar>y\<bar>\<rfloor> - 53)"
  shows "0 < s \<Longrightarrow> 2 ^ (s + 52) \<le> \<bar>y\<bar>" and "\<bar>y\<bar> < 2 ^ (s + 53)"
proof -
  let ?t = "\<lfloor>\<bar>y\<bar>\<rfloor>"
  have t0: "0 \<le> ?t" by simp
  show "2 ^ (s + 52) \<le> \<bar>y\<bar>" if "0 < s"
  proof -
    from that have bl: "bitlen ?t = int s + 53" by (simp add: s_def)
    then have "0 < ?t" using bitlen_eq_zero_iff [of ?t] by linarith
    from bitlen_bounds [OF this] have "2 ^ nat (bitlen ?t - 1) \<le> ?t" by simp
    moreover have "nat (bitlen ?t - 1) = s + 52" using bl by simp
    ultimately have "(2::int) ^ (s + 52) \<le> ?t" by simp
    then have "(2::real) ^ (s + 52) \<le> of_int ?t"
      by (metis of_int_le_iff of_int_numeral of_int_power)
    also have "\<dots> \<le> \<bar>y\<bar>" by simp
    finally show ?thesis .
  qed
  show "\<bar>y\<bar> < 2 ^ (s + 53)"
  proof (cases "0 < ?t")
    case True
    from bitlen_bounds [OF this] have "?t < 2 ^ nat (bitlen ?t)" by simp
    moreover have "nat (bitlen ?t) \<le> s + 53" by (simp add: s_def)
    then have "(2::int) ^ nat (bitlen ?t) \<le> 2 ^ (s + 53)"
      by (intro power_increasing) simp_all
    ultimately have "?t < 2 ^ (s + 53)" by linarith
    then have "?t + 1 \<le> 2 ^ (s + 53)" by simp
    then have "of_int (?t + 1) \<le> (2::real) ^ (s + 53)"
      by (metis of_int_le_iff of_int_numeral of_int_power)
    moreover have "\<bar>y\<bar> < of_int (?t + 1)" by linarith
    ultimately show ?thesis by linarith
  next
    case False
    then have "?t = 0" using t0 by linarith
    then have "\<bar>y\<bar> < 1" by linarith
    also have "(1::real) \<le> 2 ^ (s + 53)" by simp
    finally show ?thesis .
  qed
qed

lemma rnd_scaled_error:
  fixes x :: real
  defines "y \<equiv> x * units"
  defines "s \<equiv> nat (bitlen \<lfloor>\<bar>y\<bar>\<rfloor> - 53)"
  shows "\<bar>rnd x * units - y\<bar> \<le> 2 ^ s / 2"
proof -
  have "rnd x * units = of_int (round_half_even (y / 2 ^ s)) * 2 ^ s"
    using units_pos by (simp add: rnd_def Let_def y_def s_def)
  then have "rnd x * units - y = (of_int (round_half_even (y / 2 ^ s)) - y / 2 ^ s) * 2 ^ s"
    by (simp add: field_simps)
  then have "\<bar>rnd x * units - y\<bar> = \<bar>of_int (round_half_even (y / 2 ^ s)) - y / 2 ^ s\<bar> * 2 ^ s"
    by (simp add: abs_mult)
  also have "\<dots> \<le> 1 / 2 * 2 ^ s"
    by (intro mult_right_mono rhe_error) simp
  finally show ?thesis by simp
qed

text \<open>The absolute error of one rounding, and the relative error in the normal range.\<close>

lemma rnd_error_general: "\<bar>rnd x - x\<bar> \<le> \<bar>x\<bar> / 2 ^ 53 + 1 / (2 * units)"
proof -
  define y where "y = x * units"
  define s where "s = nat (bitlen \<lfloor>\<bar>y\<bar>\<rfloor> - 53)"
  have e: "\<bar>rnd x * units - y\<bar> \<le> 2 ^ s / 2"
    unfolding y_def s_def by (rule rnd_scaled_error)
  have "2 ^ s / 2 \<le> \<bar>y\<bar> / 2 ^ 53 + 1 / 2"
  proof (cases "0 < s")
    case True
    then have "2 ^ (s + 52) \<le> \<bar>y\<bar>" unfolding s_def by (rule shift_bounds(1))
    then have "(2::real) ^ s * 2 ^ 52 \<le> \<bar>y\<bar>" by (simp add: power_add)
    then have "(2::real) ^ s / 2 \<le> \<bar>y\<bar> / 2 ^ 53" by (simp add: field_simps)
    then show ?thesis by linarith
  next
    case False
    then have "s = 0" by simp
    then show ?thesis by simp
  qed
  with e have "\<bar>rnd x * units - y\<bar> \<le> \<bar>y\<bar> / 2 ^ 53 + 1 / 2" by linarith
  moreover have "\<bar>rnd x * units - y\<bar> = \<bar>rnd x - x\<bar> * units"
    using units_pos by (simp add: y_def abs_mult flip: left_diff_distrib)
  moreover have "\<bar>y\<bar> = \<bar>x\<bar> * units" using units_pos by (simp add: y_def abs_mult)
  ultimately have "\<bar>rnd x - x\<bar> * units \<le> \<bar>x\<bar> * units / 2 ^ 53 + 1 / 2" by simp
  then have "\<bar>rnd x - x\<bar> \<le> (\<bar>x\<bar> * units / 2 ^ 53 + 1 / 2) / units"
    using units_pos by (simp add: pos_le_divide_eq)
  also have "\<dots> = \<bar>x\<bar> / 2 ^ 53 + 1 / (2 * units)"
    using units_pos by (simp add: add_divide_distrib)
  finally show ?thesis .
qed

lemma rnd_error:
  assumes "1 / 2 ^ 1022 \<le> \<bar>x\<bar>"
  shows "\<bar>rnd x - x\<bar> \<le> \<bar>x\<bar> / 2 ^ 53"
proof -
  define y where "y = x * units"
  define s where "s = nat (bitlen \<lfloor>\<bar>y\<bar>\<rfloor> - 53)"
  have e: "\<bar>rnd x * units - y\<bar> \<le> 2 ^ s / 2"
    unfolding y_def s_def by (rule rnd_scaled_error)
  have ay: "\<bar>y\<bar> = \<bar>x\<bar> * units" using units_pos by (simp add: y_def abs_mult)
  have "1 / 2 ^ 1022 * (2 ^ 1022 * 2 ^ 52) \<le> \<bar>x\<bar> * (2 ^ 1022 * 2 ^ 52)"
    using assms by (intro mult_right_mono) simp_all
  moreover have "(1::real) / 2 ^ 1022 * (2 ^ 1022 * 2 ^ 52) = 2 ^ 52"
    by (simp only: times_divide_eq_left mult_1 nonzero_mult_div_cancel_left
        power_not_zero zero_neq_numeral not_False_eq_True)
  ultimately have y52: "2 ^ 52 \<le> \<bar>y\<bar>" using ay by (simp only: units_eq)
  have "2 ^ s / 2 \<le> \<bar>y\<bar> / 2 ^ 53"
  proof (cases "0 < s")
    case True
    then have "2 ^ (s + 52) \<le> \<bar>y\<bar>" unfolding s_def by (rule shift_bounds(1))
    then have "(2::real) ^ s * 2 ^ 52 \<le> \<bar>y\<bar>" by (simp add: power_add)
    then show ?thesis by (simp add: field_simps)
  next
    case False
    then have "s = 0" by simp
    then show ?thesis using y52 by simp
  qed
  with e have "\<bar>rnd x * units - y\<bar> \<le> \<bar>y\<bar> / 2 ^ 53" by linarith
  moreover have "\<bar>rnd x * units - y\<bar> = \<bar>rnd x - x\<bar> * units"
    using units_pos by (simp add: y_def abs_mult flip: left_diff_distrib)
  ultimately have "\<bar>rnd x - x\<bar> * units \<le> \<bar>x\<bar> / 2 ^ 53 * units" using ay by simp
  then show ?thesis using units_pos by simp
qed

text \<open>Evaluating a rounding whose binade is known.\<close>

lemma rnd_shift:
  assumes "2 ^ (52 + s) \<le> \<bar>x * units\<bar>" and "\<bar>x * units\<bar> < 2 ^ (53 + s)"
  shows "rnd x = of_int (round_half_even (x * units / 2 ^ s)) * 2 ^ s / units"
proof -
  let ?t = "\<lfloor>\<bar>x * units\<bar>\<rfloor>"
  have "(2::real) ^ (52 + s) = of_int (2 ^ (52 + s))" by simp
  with assms(1) have "2 ^ (52 + s) \<le> ?t" by (simp only: le_floor_iff)
  moreover have "nat (int (53 + s)) - 1 = 52 + s" by simp
  ultimately have "int (53 + s) \<le> bitlen ?t"
    unfolding bitlen_ge_iff_power by (simp only: simp_thms)
  have "of_int ?t < (2::real) ^ (53 + s)"
    using assms(2) by (meson le_less_trans of_int_floor_le)
  then have "?t < 2 ^ (53 + s)"
    by (metis of_int_less_iff of_int_numeral of_int_power)
  moreover have "nat (int (53 + s)) = 53 + s" by simp
  ultimately have "bitlen ?t \<le> int (53 + s)"
    unfolding bitlen_le_iff_power by (simp only: of_nat_0_le_iff simp_thms)
  with \<open>int (53 + s) \<le> bitlen ?t\<close> have "nat (bitlen ?t - 53) = s" by simp
  then show ?thesis by (simp add: rnd_def Let_def)
qed

lemma rnd_frac:
  assumes "k \<le> 1074" and "2 ^ 52 \<le> \<bar>x\<bar> * 2 ^ k" and "\<bar>x\<bar> * 2 ^ k < 2 ^ 53"
  shows "rnd x = of_int (round_half_even (x * 2 ^ k)) / 2 ^ k"
proof -
  define j where "j = 1074 - k"
  have u: "units = 2 ^ k * 2 ^ j"
    using assms(1) by (simp add: units_def j_def flip: power_add)
  have a: "\<bar>x * units\<bar> = \<bar>x\<bar> * 2 ^ k * 2 ^ j" by (simp add: u abs_mult)
  have "2 ^ 52 * 2 ^ j \<le> \<bar>x\<bar> * 2 ^ k * (2::real) ^ j"
    using assms(2) by (intro mult_right_mono) simp_all
  then have 1: "2 ^ (52 + j) \<le> \<bar>x * units\<bar>" by (simp add: a power_add)
  have "\<bar>x\<bar> * 2 ^ k * (2::real) ^ j < 2 ^ 53 * 2 ^ j"
    using assms(3) by (intro mult_strict_right_mono) simp_all
  then have 2: "\<bar>x * units\<bar> < 2 ^ (53 + j)" by (simp add: a power_add)
  have "rnd x = of_int (round_half_even (x * units / 2 ^ j)) * 2 ^ j / units"
    using 1 2 by (rule rnd_shift)
  also have "x * units / 2 ^ j = x * 2 ^ k" by (simp add: u)
  also have "of_int (round_half_even (x * 2 ^ k)) * 2 ^ j / units
      = of_int (round_half_even (x * 2 ^ k)) / 2 ^ k" by (simp add: u)
  finally show ?thesis .
qed

lemma rnd_whole:
  assumes "2 ^ 52 \<le> \<bar>x\<bar> / 2 ^ k" and "\<bar>x\<bar> / 2 ^ k < 2 ^ 53"
  shows "rnd x = of_int (round_half_even (x / 2 ^ k)) * 2 ^ k"
proof -
  have a: "\<bar>x * units\<bar> = \<bar>x\<bar> * units" using units_pos by (simp add: abs_mult)
  have "2 ^ 52 * (2 ^ k * units) \<le> \<bar>x\<bar> / 2 ^ k * (2 ^ k * units)"
    using assms(1) units_pos by (intro mult_right_mono) simp_all
  then have 1: "2 ^ (52 + (1074 + k)) \<le> \<bar>x * units\<bar>"
    by (simp add: a power_add units_def)
  have "\<bar>x\<bar> / 2 ^ k * (2 ^ k * units) < 2 ^ 53 * (2 ^ k * units)"
    using assms(2) units_pos by (intro mult_strict_right_mono) simp_all
  then have 2: "\<bar>x * units\<bar> < 2 ^ (53 + (1074 + k))"
    by (simp add: a power_add units_def)
  have "rnd x = of_int (round_half_even (x * units / 2 ^ (1074 + k))) * 2 ^ (1074 + k) / units"
    using 1 2 by (rule rnd_shift)
  then show ?thesis by (simp add: units_def power_add)
qed

lemma rnd_0 [simp]: "rnd 0 = 0"
  using rhe_int [of 0] by (simp add: rnd_def)

lemma rhe_near:
  assumes "of_int n - 1 / 2 < q" and "q < of_int n + 1 / 2"
  shows "round_half_even q = n"
proof -
  have "\<bar>of_int (round_half_even q) - q\<bar> \<le> 1 / 2" by (rule rhe_error)
  then have "\<bar>(of_int (round_half_even q) :: real) - of_int n\<bar> < 1" using assms by linarith
  then have "\<bar>round_half_even q - n\<bar> < 1"
    by (metis of_int_1 of_int_abs of_int_diff of_int_less_iff)
  then show ?thesis by simp
qed

lemma rhe_tie_even:
  assumes "q = of_int n + 1 / 2" and "even n"
  shows "round_half_even q = n"
proof -
  have "\<lfloor>q\<rfloor> = n" using assms(1) by linarith
  then show ?thesis using assms by (simp add: round_half_even_def Let_def)
qed

lemma rhe_tie_odd:
  assumes "q = of_int n + 1 / 2" and "odd n"
  shows "round_half_even q = n + 1"
proof -
  have "\<lfloor>q\<rfloor> = n" using assms(1) by linarith
  then show ?thesis using assms by (simp add: round_half_even_def Let_def)
qed

text \<open>Magnitude, sign and grid of a rounded value.\<close>

lemma rnd_abs_le: "\<bar>rnd x\<bar> \<le> 2 * \<bar>x\<bar> + 1"
proof -
  have "\<bar>rnd x - x\<bar> \<le> \<bar>x\<bar> / 2 ^ 53 + 1 / (2 * units)" by (rule rnd_error_general)
  moreover have "\<bar>x\<bar> / 2 ^ 53 \<le> \<bar>x\<bar>" by (simp add: field_simps)
  moreover have "1 / (2 * units) \<le> 1" using units_pos by (simp add: units_def)
  ultimately show ?thesis by linarith
qed

lemma huge_eq: "huge = 2 * 2 ^ 1023"
  by (simp add: huge_def)

lemma fl_finite:
  assumes "\<bar>x\<bar> \<le> 2 ^ 1022"
  shows "fl x = Fin (rnd x)"
proof -
  have "\<bar>rnd x\<bar> \<le> 2 * \<bar>x\<bar> + 1" by (rule rnd_abs_le)
  also have "\<dots> \<le> 2 * 2 ^ 1022 + 1" using assms by simp
  also have "\<dots> < huge" by (simp add: huge_def)
  finally show ?thesis by (simp add: fl_def Let_def)
qed

lemma small_le_big: "n \<le> 1022 \<Longrightarrow> \<bar>x\<bar> \<le> 2 ^ n \<Longrightarrow> \<bar>x\<bar> \<le> (2::real) ^ 1022"
  by (meson order_trans power_increasing one_le_numeral)

lemma fl_finite_pow:
  assumes "\<bar>x\<bar> \<le> 2 ^ n" and "n \<le> 1022"
  shows "fl x = Fin (rnd x)"
  using small_le_big [OF assms(2,1)] by (rule fl_finite)

lemma rnd_pos:
  assumes "1 / units \<le> x"
  shows "0 < rnd x"
proof -
  define y where "y = x * units"
  define s where "s = nat (bitlen \<lfloor>\<bar>y\<bar>\<rfloor> - 53)"
  have y1: "1 \<le> y" using assms units_pos by (simp add: y_def field_simps)
  have "1 \<le> y / 2 ^ s"
  proof (cases "0 < s")
    case True
    then have "2 ^ (s + 52) \<le> \<bar>y\<bar>" unfolding s_def by (rule shift_bounds(1))
    then have "(2::real) ^ s * 2 ^ 52 \<le> y" using y1 by (simp only: power_add)
    moreover have "(2::real) ^ s * 1 \<le> 2 ^ s * 2 ^ 52" by (intro mult_left_mono) simp_all
    ultimately have "(2::real) ^ s \<le> y" by (simp only: mult_1_right)
    then show ?thesis by (simp add: pos_le_divide_eq)
  next
    case False
    then show ?thesis using y1 by simp
  qed
  then have "of_int 1 \<le> y / 2 ^ s" by simp
  then have "1 \<le> round_half_even (y / 2 ^ s)" by (rule rhe_ge)
  then have "0 < (of_int (round_half_even (y / 2 ^ s)) :: real)" by simp
  then show ?thesis
    using units_pos by (simp add: rnd_def Let_def y_def s_def)
qed

lemma rnd_neg:
  assumes "x \<le> - (1 / units)"
  shows "rnd x < 0"
proof -
  define y where "y = x * units"
  define s where "s = nat (bitlen \<lfloor>\<bar>y\<bar>\<rfloor> - 53)"
  have y1: "y \<le> - 1" using assms units_pos by (simp add: y_def field_simps)
  have "y / 2 ^ s \<le> - 1"
  proof (cases "0 < s")
    case True
    then have "2 ^ (s + 52) \<le> \<bar>y\<bar>" unfolding s_def by (rule shift_bounds(1))
    then have "(2::real) ^ s * 2 ^ 52 \<le> - y" using y1 by (simp only: power_add)
    moreover have "(2::real) ^ s * 1 \<le> 2 ^ s * 2 ^ 52" by (intro mult_left_mono) simp_all
    ultimately have "(2::real) ^ s \<le> - y" by (simp only: mult_1_right)
    then have "y \<le> - 1 * 2 ^ s" by simp
    then show ?thesis by (simp only: pos_divide_le_eq zero_less_power zero_less_numeral)
  next
    case False
    then show ?thesis using y1 by simp
  qed
  then have "y / 2 ^ s \<le> of_int (- 1)" by simp
  then have "round_half_even (y / 2 ^ s) \<le> - 1" by (rule rhe_le)
  then have "(of_int (round_half_even (y / 2 ^ s)) :: real) < 0" by simp
  then show ?thesis
    using units_pos by (simp add: rnd_def Let_def y_def s_def mult_neg_pos divide_neg_pos)
qed

lemma rnd_grid: "\<exists>k::int. rnd x * units = of_int k"
proof -
  define y where "y = x * units"
  define s where "s = nat (bitlen \<lfloor>\<bar>y\<bar>\<rfloor> - 53)"
  have "rnd x * units = of_int (round_half_even (y / 2 ^ s) * 2 ^ s)"
    using units_pos by (simp add: rnd_def Let_def y_def s_def)
  then show ?thesis by blast
qed

lemma rnd_int_exact:
  assumes "0 \<le> n" and "n \<le> 2 ^ 53"
  shows "rnd (of_int n) = of_int n"
proof (cases "n = 0")
  case True
  then show ?thesis by simp
next
  case False
  then have pos: "0 < n" using assms(1) by simp
  define b where "b = nat (bitlen n)"
  have b1: "1 \<le> b" using pos bitlen_eq_zero_iff [of n] bitlen_nonneg [of n] by (simp add: b_def)
  have bl: "bitlen n = int b" using bitlen_nonneg [of n] by (simp add: b_def)
  from bitlen_bounds [OF pos] have lo: "2 ^ (b - 1) \<le> n" and hi: "n < 2 ^ b"
    using b1 by (simp_all add: bl nat_diff_distrib)
  have rlo: "(2::real) ^ (b - 1) \<le> of_int n"
    using lo by (metis of_int_le_iff of_int_numeral of_int_power)
  have rhi: "of_int n < (2::real) ^ b"
    using hi by (metis of_int_less_iff of_int_numeral of_int_power)
  show ?thesis
  proof (cases "b \<le> 53")
    case True
    define k where "k = 53 - b"
    have kb: "b - 1 + k = 52" "b + k = 53" using True b1 by (simp_all add: k_def)
    have an: "\<bar>of_int n :: real\<bar> = of_int n" using pos by simp
    have "(2::real) ^ (b - 1) * 2 ^ k \<le> of_int n * 2 ^ k"
      using rlo by (intro mult_right_mono) simp_all
    moreover have "(2::real) ^ (b - 1) * 2 ^ k = 2 ^ 52"
      by (simp only: kb flip: power_add)
    ultimately have 1: "2 ^ 52 \<le> \<bar>of_int n :: real\<bar> * 2 ^ k" by (simp only: an)
    have "of_int n * 2 ^ k < (2::real) ^ b * 2 ^ k"
      using rhi by (intro mult_strict_right_mono) simp_all
    moreover have "(2::real) ^ b * 2 ^ k = 2 ^ 53"
      by (simp only: kb flip: power_add)
    ultimately have 2: "\<bar>of_int n :: real\<bar> * 2 ^ k < 2 ^ 53" by (simp only: an)
    have "k \<le> 1074" by (simp add: k_def)
    then have "rnd (of_int n) = of_int (round_half_even (of_int n * 2 ^ k)) / 2 ^ k"
      using 1 2 by (rule rnd_frac)
    moreover have "(of_int n :: real) * 2 ^ k = of_int (n * 2 ^ k)" by simp
    ultimately have "rnd (of_int n) = of_int (n * 2 ^ k) / 2 ^ k" by (simp only: rhe_int)
    then show ?thesis by simp
  next
    case False
    then have "53 \<le> b - 1" by simp
    then have "(2::int) ^ 53 \<le> 2 ^ (b - 1)" by (intro power_increasing) simp_all
    then have "2 ^ 53 \<le> n" using lo by linarith
    then have n: "n = 2 ^ 53" using assms(2) by simp
    have "rnd (2 ^ 53) = of_int (round_half_even (2 ^ 53 / 2 ^ 1)) * 2 ^ 1"
      by (rule rnd_whole) simp_all
    moreover have "(2::real) ^ 53 / 2 ^ 1 = of_int (2 ^ 52)" by simp
    ultimately have "rnd (2 ^ 53) = of_int (2 ^ 52) * 2 ^ 1" by (simp only: rhe_int)
    then show ?thesis by (simp add: n)
  qed
qed

section \<open>Error bounds for the layout arithmetic\<close>

lemma tiny: "1 / (2 * units) \<le> 1 / 2 ^ 100"
  by (simp add: units_def)

lemma normal_ge: "1 / 2 ^ 60 \<le> x \<Longrightarrow> 1 / 2 ^ 1022 \<le> \<bar>x::real\<bar>"
proof -
  assume a: "1 / 2 ^ 60 \<le> x"
  have "(1::real) / 2 ^ 1022 \<le> 1 / 2 ^ 60" by simp
  with a show ?thesis by linarith
qed

text \<open>One rounding of a positive number in the normal range, and of any number.\<close>

lemma rnd_between:
  assumes "1 / 2 ^ 60 \<le> x"
  shows "x - x / 2 ^ 53 \<le> rnd x" and "rnd x \<le> x + x / 2 ^ 53"
proof -
  have "0 \<le> x" using assms by (meson order_trans zero_le_divide_1_iff zero_le_numeral zero_le_power)
  then have "\<bar>x\<bar> = x" by simp
  moreover have "\<bar>rnd x - x\<bar> \<le> \<bar>x\<bar> / 2 ^ 53"
    by (rule rnd_error [OF normal_ge [OF assms]])
  ultimately have "\<bar>rnd x - x\<bar> \<le> x / 2 ^ 53" by simp
  then show "x - x / 2 ^ 53 \<le> rnd x" and "rnd x \<le> x + x / 2 ^ 53"
    unfolding abs_le_iff by linarith+
qed

lemma rnd_between_gen:
  shows "x - \<bar>x\<bar> / 2 ^ 53 - 1 / 2 ^ 100 \<le> rnd x" and "rnd x \<le> x + \<bar>x\<bar> / 2 ^ 53 + 1 / 2 ^ 100"
proof -
  have "\<bar>rnd x - x\<bar> \<le> \<bar>x\<bar> / 2 ^ 53 + 1 / (2 * units)" by (rule rnd_error_general)
  with tiny have "\<bar>rnd x - x\<bar> \<le> \<bar>x\<bar> / 2 ^ 53 + 1 / 2 ^ 100" by linarith
  then show "x - \<bar>x\<bar> / 2 ^ 53 - 1 / 2 ^ 100 \<le> rnd x"
    and "rnd x \<le> x + \<bar>x\<bar> / 2 ^ 53 + 1 / 2 ^ 100"
    unfolding abs_le_iff by linarith+
qed

text \<open>The page dimensions lie between 595 and 1191 points.\<close>

lemma literal_bounds:
  "595 \<le> rnd 595.28" "rnd 595.28 \<le> 596"
  "841 \<le> rnd 841.89" "rnd 841.89 \<le> 842"
  "1190 \<le> rnd 1190.55" "rnd 1190.55 \<le> 1191"
proof -
  have n: "1 / 2 ^ 60 \<le> (595.28::real)" "1 / 2 ^ 60 \<le> (841.89::real)" "1 / 2 ^ 60 \<le> (1190.55::real)"
    by simp_all
  show "595 \<le> rnd 595.28" using rnd_between(1) [OF n(1)] by simp
  show "rnd 595.28 \<le> 596" using rnd_between(2) [OF n(1)] by simp
  show "841 \<le> rnd 841.89" using rnd_between(1) [OF n(2)] by simp
  show "rnd 841.89 \<le> 842" using rnd_between(2) [OF n(2)] by simp
  show "1190 \<le> rnd 1190.55" using rnd_between(1) [OF n(3)] by simp
  show "rnd 1190.55 \<le> 1191" using rnd_between(2) [OF n(3)] by simp
qed

lemma registered_range:
  assumes "map_of pageFormats pageFormat = Some p"
  shows "595 \<le> pf_width p" "pf_width p \<le> 842" "792 \<le> pf_height p" "pf_height p \<le> 1191"
  using assms literal_bounds
  by (auto simp: pageFormats_def split: if_splits)

text \<open>
  The steps of the aspect-preserving branches, each with the error that its roundings
  add: the usable length \<open>page - margin * 2\<close>, a scale \<open>usable / image\<close>, a final
  length \<open>image * scale\<close>, and an offset \<open>margin + (usable - final) / 2\<close>.
\<close>

lemma usable_step:
  assumes "0 \<le> m" and "2 * m + 1 \<le> pw" and "pw \<le> 1200"
  shows "\<exists>u. sub (Fin pw) (mul (Fin m) (Fin 2)) = Fin u \<and> 1 / 2 \<le> u \<and> u \<le> 1201
           \<and> \<bar>u - (pw - 2 * m)\<bar> \<le> pw / 2 ^ 52"
proof -
  define a where "a = rnd (m * 2)"
  define u where "u = rnd (pw - a)"
  have "\<bar>m * 2\<bar> \<le> 2 ^ 11" using assms by simp
  then have "fl (m * 2) = Fin a" unfolding a_def by (rule fl_finite_pow) simp
  then have 1: "mul (Fin m) (Fin 2) = Fin a" by simp
  have ea: "m * 2 - \<bar>m * 2\<bar> / 2 ^ 53 - 1 / 2 ^ 100 \<le> a" "a \<le> m * 2 + \<bar>m * 2\<bar> / 2 ^ 53 + 1 / 2 ^ 100"
    unfolding a_def by (rule rnd_between_gen)+
  have a0: "- 1 \<le> a" "a \<le> pw" using ea assms by simp_all
  then have "\<bar>pw - a\<bar> \<le> 2 ^ 11" using assms by simp
  then have "fl (pw - a) = Fin u" unfolding u_def by (rule fl_finite_pow) simp
  then have 2: "sub (Fin pw) (Fin a) = Fin u" by (simp add: sub_def)
  have eu: "pw - a - \<bar>pw - a\<bar> / 2 ^ 53 - 1 / 2 ^ 100 \<le> u" "u \<le> pw - a + \<bar>pw - a\<bar> / 2 ^ 53 + 1 / 2 ^ 100"
    unfolding u_def by (rule rnd_between_gen)+
  have "1 / 2 \<le> u" "u \<le> 1201" "\<bar>u - (pw - 2 * m)\<bar> \<le> pw / 2 ^ 52"
    using ea eu assms a0 unfolding abs_le_iff by simp_all argo+
  then show ?thesis using 1 2 by simp
qed

lemma quot_step:
  assumes "1 / 2 \<le> u" and "u \<le> 1201" and "1 \<le> i" and "i \<le> 2 ^ 53"
  shows "divide_js (Fin u) (Fin i) = Fin (rnd (u / i))"
    and "u / i - u / i / 2 ^ 53 \<le> rnd (u / i)" and "rnd (u / i) \<le> u / i + u / i / 2 ^ 53"
    and "1 / 2 ^ 55 \<le> rnd (u / i)" and "rnd (u / i) \<le> 1202"
proof -
  have i0: "0 < i" using assms(3) by simp
  have qu: "u / i \<le> u" using assms(1,3) i0 by (simp add: field_simps)
  have "1 / 2 / 2 ^ 53 \<le> u / i"
    using assms(1,4) i0 by (intro frac_le) simp_all
  then have ql: "1 / 2 ^ 54 \<le> u / i" by simp
  have "(1::real) / 2 ^ 60 \<le> 1 / 2 ^ 54" by simp
  then have n: "1 / 2 ^ 60 \<le> u / i" using ql by linarith
  have q0: "0 \<le> u / i" using assms(1) i0 by simp
  have "u / i \<le> 2 ^ 11" using qu assms(2) by simp
  then have "\<bar>u / i\<bar> \<le> 2 ^ 11" using q0 by (simp only: abs_of_nonneg)
  then have "fl (u / i) = Fin (rnd (u / i))" by (rule fl_finite_pow) simp
  then show "divide_js (Fin u) (Fin i) = Fin (rnd (u / i))" using i0 by simp
  show lo: "u / i - u / i / 2 ^ 53 \<le> rnd (u / i)" by (rule rnd_between(1) [OF n])
  show hi: "rnd (u / i) \<le> u / i + u / i / 2 ^ 53" by (rule rnd_between(2) [OF n])
  show "1 / 2 ^ 55 \<le> rnd (u / i)" using lo ql by (simp; argo)
  show "rnd (u / i) \<le> 1202" using hi qu assms(2) ql by (simp; argo)
qed

lemma prod_step:
  assumes "1 \<le> i" and "i \<le> 2 ^ 53" and "1 / 2 ^ 55 \<le> s" and "s \<le> 1202"
  shows "mul (Fin i) (Fin s) = Fin (rnd (i * s))"
    and "i * s - i * s / 2 ^ 53 \<le> rnd (i * s)" and "rnd (i * s) \<le> i * s + i * s / 2 ^ 53"
    and "0 < rnd (i * s)" and "rnd (i * s) \<le> 2 ^ 65"
proof -
  have s0: "0 < s" using assms(3) by (meson less_le_trans zero_less_divide_1_iff zero_less_numeral zero_less_power)
  have "s \<le> i * s" using assms(1) s0 by simp
  then have pl: "1 / 2 ^ 55 \<le> i * s" using assms(3) by linarith
  have "(1::real) / 2 ^ 60 \<le> 1 / 2 ^ 55" by simp
  then have n: "1 / 2 ^ 60 \<le> i * s" using pl by linarith
  have "i * s \<le> 2 ^ 53 * 1202" using assms s0 by (intro mult_mono) simp_all
  then have pu: "i * s \<le> 2 ^ 64" by simp
  have p0: "0 \<le> i * s" using assms(1) s0 by simp
  have "\<bar>i * s\<bar> \<le> 2 ^ 64" using pu p0 by (simp only: abs_of_nonneg)
  then have "fl (i * s) = Fin (rnd (i * s))" by (rule fl_finite_pow) simp
  then show "mul (Fin i) (Fin s) = Fin (rnd (i * s))" by simp
  show lo: "i * s - i * s / 2 ^ 53 \<le> rnd (i * s)" by (rule rnd_between(1) [OF n])
  show hi: "rnd (i * s) \<le> i * s + i * s / 2 ^ 53" by (rule rnd_between(2) [OF n])
  show "0 < rnd (i * s)" using lo pl by (simp; argo)
  show "rnd (i * s) \<le> 2 ^ 65" using hi pu pl by (simp; argo)
qed

text \<open>One rounding of a number bounded by \<open>B\<close>.\<close>

lemma rnd_abs_err:
  assumes "\<bar>x\<bar> \<le> B"
  shows "\<bar>rnd x - x\<bar> \<le> B / 2 ^ 53 + 1 / 2 ^ 100"
proof -
  have "\<bar>x\<bar> / 2 ^ 53 \<le> B / 2 ^ 53" using assms by (simp add: divide_right_mono)
  then show ?thesis using rnd_between_gen [of x] unfolding abs_le_iff by linarith
qed

lemma centre_step:
  assumes "0 \<le> m" and "m \<le> 600" and "1 / 2 \<le> u" and "u \<le> 1201" and "0 \<le> w" and "w \<le> 2 ^ 65"
  shows "\<exists>x. add (Fin m) (divide_js (sub (Fin u) (Fin w)) (Fin 2)) = Fin x
           \<and> \<bar>x - (m + (u - w) / 2)\<bar> \<le> (m + u + w) / 2 ^ 50"
proof -
  define d where "d = rnd (u - w)"
  define hf where "hf = rnd (d / 2)"
  define x where "x = rnd (m + hf)"
  have b1: "\<bar>u - w\<bar> \<le> u + w" using assms by simp
  have "\<bar>u - w\<bar> \<le> 2 ^ 66" using assms by simp
  then have "fl (u - w) = Fin d" unfolding d_def by (rule fl_finite_pow) simp
  then have 1: "sub (Fin u) (Fin w) = Fin d" by (simp add: sub_def)
  have D: "\<bar>d - (u - w)\<bar> \<le> (u + w) / 2 ^ 53 + 1 / 2 ^ 100"
    unfolding d_def by (rule rnd_abs_err [OF b1])
  have b2: "\<bar>d / 2\<bar> \<le> u + w" using D b1 assms(3,5) by (simp; argo)
  have "\<bar>d / 2\<bar> \<le> 2 ^ 67" using b2 assms by simp
  then have "fl (d / 2) = Fin hf" unfolding hf_def by (rule fl_finite_pow) simp
  then have 2: "divide_js (Fin d) (Fin 2) = Fin hf" by simp
  have H: "\<bar>hf - d / 2\<bar> \<le> (u + w) / 2 ^ 53 + 1 / 2 ^ 100"
    unfolding hf_def by (rule rnd_abs_err [OF b2])
  have b3: "\<bar>m + hf\<bar> \<le> m + 2 * (u + w)" using H b2 assms(1,3,5) by (simp; argo)
  have "\<bar>m + hf\<bar> \<le> 2 ^ 68" using b3 assms by simp
  then have "fl (m + hf) = Fin x" unfolding x_def by (rule fl_finite_pow) simp
  then have 3: "add (Fin m) (Fin hf) = Fin x" by simp
  have X: "\<bar>x - (m + hf)\<bar> \<le> (m + 2 * (u + w)) / 2 ^ 53 + 1 / 2 ^ 100"
    unfolding x_def by (rule rnd_abs_err [OF b3])
  have "\<bar>x - (m + (u - w) / 2)\<bar> \<le> (m + u + w) / 2 ^ 50"
    using D H X assms(1,3,5) by (simp; argo)
  then show ?thesis using 1 2 3 by simp
qed

section \<open>Properties of the layout\<close>

text \<open>A key of the table is found as an own property.\<close>

lemma registered_lookup:
  "map_of pageFormats pageFormat = Some p \<Longrightarrow> page_lookup pageFormat = OwnFormat p"
  by (simp add: page_lookup_def)

lemma or_default_margin: "0 \<le> m \<Longrightarrow> or_default (Fin m) (Fin 0) = Fin m"
  by (simp add: or_default_def)

text \<open>
  Two lengths scaled by one factor and rounded keep their quotient up to the relative
  error \<open>2^-51\<close>.
\<close>

lemma ratio_step:
  fixes iw ih s w h :: real
  assumes "0 < iw" and "0 < ih" and "0 < s" and "0 < h"
    and "iw * s - iw * s / 2 ^ 53 \<le> w" and "w \<le> iw * s + iw * s / 2 ^ 53"
    and "ih * s - ih * s / 2 ^ 53 \<le> h" and "h \<le> ih * s + ih * s / 2 ^ 53"
  shows "\<bar>w / h - iw / ih\<bar> \<le> iw / ih / 2 ^ 51"
proof -
  define r where "r = iw / ih"
  define T where "T = iw * s"
  have r0: "0 < r" using assms(1,2) by (simp add: r_def)
  have T0: "0 < T" using assms(1,3) by (simp add: T_def)
  have "r * (ih * s) = T" using assms(2) by (simp add: r_def T_def)
  then have rq: "r * (ih * s - ih * s / 2 ^ 53) = T - T / 2 ^ 53"
    "r * (ih * s + ih * s / 2 ^ 53) = T + T / 2 ^ 53"
    by (simp_all add: algebra_simps flip: times_divide_eq_right)
  have "r * (ih * s - ih * s / 2 ^ 53) \<le> r * h"
    by (rule mult_left_mono [OF assms(7)]) (simp add: less_imp_le [OF r0])
  then have lo: "T - T / 2 ^ 53 \<le> r * h" by (simp only: rq(1))
  have "r * h \<le> r * (ih * s + ih * s / 2 ^ 53)"
    by (rule mult_left_mono [OF assms(8)]) (simp add: less_imp_le [OF r0])
  then have hi: "r * h \<le> T + T / 2 ^ 53" by (simp only: rq(2))
  have w1: "T - T / 2 ^ 53 \<le> w" and w2: "w \<le> T + T / 2 ^ 53"
    using assms(5,6) by (simp_all add: T_def)
  have "w \<le> (r + r / 2 ^ 51) * h"
    using lo w2 T0 by (simp add: algebra_simps; argo)
  then have up: "w / h \<le> r + r / 2 ^ 51" using assms(4) by (simp add: pos_divide_le_eq)
  have "(r - r / 2 ^ 51) * h \<le> w"
    using hi w1 T0 by (simp add: algebra_simps; argo)
  then have dn: "r - r / 2 ^ 51 \<le> w / h" using assms(4) by (simp add: pos_le_divide_eq)
  show ?thesis using up dn unfolding r_def [symmetric] abs_le_iff by linarith
qed

text \<open>
  C1 (as amended). In Fit mode, for a registered page format, a margin \<open>m \<ge> 0\<close> that
  leaves a usable area of at least one point per axis, and image dimensions between 1
  and \<open>2^53\<close>, the layout is returned and is what double arithmetic makes of the
  image scaled by \<open>min (usableWidth / imgWidth) (usableHeight / imgHeight)\<close>, where
  \<open>uw\<close> and \<open>uh\<close> are the usable width and height as the code computes them
  (\<open>page - margin * 2\<close>, within \<open>2^-52\<close> of the exact difference, relative to the
  page). The width and the height are positive and exceed \<open>uw\<close> and \<open>uh\<close> by at most
  the relative error \<open>2^-51\<close>; the quotient \<open>width / height\<close> differs from
  \<open>imgWidth / imgHeight\<close> by at most the relative error \<open>2^-51\<close>; and each offset
  differs from \<open>m + (usable - final) / 2\<close> by at most \<open>(m + usable + final) / 2^50\<close>.
  The bounds \<open>width \<le> usableWidth\<close> and \<open>height \<le> usableHeight\<close> themselves do not
  hold in double arithmetic.
\<close>

theorem fit_layout:
  assumes "map_of pageFormats pageFormat = Some p"
    and "minimumMargin c = Fin m" and "0 \<le> m"
    and "2 * m + 1 \<le> pf_width p" and "2 * m + 1 \<le> pf_height p"
    and "fillMode c = ''fit''"
    and "1 \<le> iw" and "iw \<le> 2 ^ 53" and "1 \<le> ih" and "ih \<le> 2 ^ 53"
  shows "\<exists>uw uh w h x y l.
      sub (Fin (pf_width p)) (mul (Fin m) (Fin 2)) = Fin uw
    \<and> sub (Fin (pf_height p)) (mul (Fin m) (Fin 2)) = Fin uh
    \<and> \<bar>uw - (pf_width p - 2 * m)\<bar> \<le> pf_width p / 2 ^ 52
    \<and> \<bar>uh - (pf_height p - 2 * m)\<bar> \<le> pf_height p / 2 ^ 52
    \<and> calculateOptimalLayout c (Fin iw) (Fin ih) pageFormat = Inr l
    \<and> l_width l = Fin w \<and> l_height l = Fin h \<and> l_x l = Fin x \<and> l_y l = Fin y
    \<and> mul (Fin iw) (Math_min (divide_js (Fin uw) (Fin iw)) (divide_js (Fin uh) (Fin ih))) = Fin w
    \<and> mul (Fin ih) (Math_min (divide_js (Fin uw) (Fin iw)) (divide_js (Fin uh) (Fin ih))) = Fin h
    \<and> 0 < w \<and> 0 < h
    \<and> w \<le> uw + uw / 2 ^ 51 \<and> h \<le> uh + uh / 2 ^ 51
    \<and> \<bar>w / h - iw / ih\<bar> \<le> iw / ih / 2 ^ 51
    \<and> \<bar>x - (m + (uw - w) / 2)\<bar> \<le> (m + uw + w) / 2 ^ 50
    \<and> \<bar>y - (m + (uh - h) / 2)\<bar> \<le> (m + uh + h) / 2 ^ 50"
proof -
  note rr = registered_range [OF assms(1)]
  have m600: "m \<le> 600" using assms(4) rr(2) by linarith
  obtain uw where uw: "sub (Fin (pf_width p)) (mul (Fin m) (Fin 2)) = Fin uw"
      "1 / 2 \<le> uw" "uw \<le> 1201" "\<bar>uw - (pf_width p - 2 * m)\<bar> \<le> pf_width p / 2 ^ 52"
    using usable_step [OF assms(3,4)] rr(2) by auto
  obtain uh where uh: "sub (Fin (pf_height p)) (mul (Fin m) (Fin 2)) = Fin uh"
      "1 / 2 \<le> uh" "uh \<le> 1201" "\<bar>uh - (pf_height p - 2 * m)\<bar> \<le> pf_height p / 2 ^ 52"
    using usable_step [OF assms(3,5)] rr(4) by auto
  define sW where "sW = rnd (uw / iw)"
  define sH where "sH = rnd (uh / ih)"
  define s where "s = min sW sH"
  define w where "w = rnd (iw * s)"
  define h where "h = rnd (ih * s)"
  note qw = quot_step [OF uw(2,3) assms(7,8), folded sW_def]
  note qh = quot_step [OF uh(2,3) assms(9,10), folded sH_def]
  have s1: "1 / 2 ^ 55 \<le> s" and s2: "s \<le> 1202" and s3: "s \<le> sW" and s4: "s \<le> sH"
    using qw(4,5) qh(4,5) by (simp_all add: s_def)
  have s0: "0 < s" using s1 by (meson less_le_trans zero_less_divide_1_iff zero_less_numeral zero_less_power)
  note pw = prod_step [OF assms(7,8) s1 s2, folded w_def]
  note ph = prod_step [OF assms(9,10) s1 s2, folded h_def]
  have iw0: "0 < iw" and ih0: "0 < ih" using assms(7,9) by simp_all
  have "iw * s \<le> iw * sW" using s3 iw0 by simp
  also have "\<dots> \<le> iw * (uw / iw + uw / iw / 2 ^ 53)" using mult_left_mono [OF qw(3), of iw] iw0 by simp
  also have "\<dots> = uw + uw / 2 ^ 53" using iw0 by (simp add: algebra_simps)
  finally have "iw * s \<le> uw + uw / 2 ^ 53" .
  then have wb: "w \<le> uw + uw / 2 ^ 51" using pw(3) uw(2) by (simp; argo)
  have "ih * s \<le> ih * sH" using s4 ih0 by simp
  also have "\<dots> \<le> ih * (uh / ih + uh / ih / 2 ^ 53)" using mult_left_mono [OF qh(3), of ih] ih0 by simp
  also have "\<dots> = uh + uh / 2 ^ 53" using ih0 by (simp add: algebra_simps)
  finally have "ih * s \<le> uh + uh / 2 ^ 53" .
  then have hb: "h \<le> uh + uh / 2 ^ 51" using ph(3) uh(2) by (simp; argo)
  have ratio: "\<bar>w / h - iw / ih\<bar> \<le> iw / ih / 2 ^ 51"
    by (rule ratio_step [OF iw0 ih0 s0 ph(4) pw(2,3) ph(2,3)])
  have w0: "0 \<le> w" and h0: "0 \<le> h" using pw(4) ph(4) by simp_all
  obtain x where x: "add (Fin m) (divide_js (sub (Fin uw) (Fin w)) (Fin 2)) = Fin x"
      "\<bar>x - (m + (uw - w) / 2)\<bar> \<le> (m + uw + w) / 2 ^ 50"
    using centre_step [OF assms(3) m600 uw(2,3) w0 pw(5)] by auto
  obtain y where y: "add (Fin m) (divide_js (sub (Fin uh) (Fin h)) (Fin 2)) = Fin y"
      "\<bar>y - (m + (uh - h) / 2)\<bar> \<le> (m + uh + h) / 2 ^ 50"
    using centre_step [OF assms(3) m600 uh(2,3) h0 ph(5)] by auto
  have calc: "calculateOptimalLayout c (Fin iw) (Fin ih) pageFormat =
      Inr \<lparr>l_width = Fin w, l_height = Fin h, l_x = Fin x, l_y = Fin y,
           l_pageWidth = Some (Fin (pf_width p)), l_pageHeight = Some (Fin (pf_height p)),
           l_fillMode = ''fit''\<rparr>"
    unfolding calculateOptimalLayout_def registered_lookup [OF assms(1)] assms(2,6)
      or_default_margin [OF assms(3)]
    by (simp add: to_number_def uw(1) uh(1) qw(1) qh(1) s_def [symmetric] pw(1) ph(1) x(1) y(1)
          del: add.simps mul.simps divide_js.simps)
  have sc: "mul (Fin iw) (Math_min (divide_js (Fin uw) (Fin iw)) (divide_js (Fin uh) (Fin ih))) = Fin w"
      "mul (Fin ih) (Math_min (divide_js (Fin uw) (Fin iw)) (divide_js (Fin uh) (Fin ih))) = Fin h"
    by (simp_all add: qw(1) qh(1) s_def [symmetric] pw(1) ph(1) del: mul.simps divide_js.simps)
  show ?thesis
    apply (rule exI [of _ uw], rule exI [of _ uh], rule exI [of _ w], rule exI [of _ h])
    apply (rule exI [of _ x], rule exI [of _ y])
    using uw(1,4) uh(1,4) calc sc pw(4) ph(4) wb hb ratio x(2) y(2) by simp
qed

text \<open>
  C2 (as amended). In Crop mode, under the same conditions, the layout is returned
  and is what double arithmetic makes of the image scaled by
  \<open>max (usableWidth / imgWidth) (usableHeight / imgHeight)\<close>. The width and the height
  are positive and fall short of the computed usable width \<open>uw\<close> and height \<open>uh\<close> by
  at most the relative error \<open>2^-51\<close>; the quotient \<open>width / height\<close> differs from
  \<open>imgWidth / imgHeight\<close> by at most the relative error \<open>2^-51\<close>; and each offset
  differs from \<open>m + (usable - final) / 2\<close> by at most \<open>(m + usable + final) / 2^50\<close>,
  so the rectangle is centred on the usable area and may start before it. The bounds
  \<open>width \<ge> usableWidth\<close> and \<open>height \<ge> usableHeight\<close> themselves do not hold in
  double arithmetic.
\<close>

theorem crop_layout:
  assumes "map_of pageFormats pageFormat = Some p"
    and "minimumMargin c = Fin m" and "0 \<le> m"
    and "2 * m + 1 \<le> pf_width p" and "2 * m + 1 \<le> pf_height p"
    and "fillMode c = ''crop''"
    and "1 \<le> iw" and "iw \<le> 2 ^ 53" and "1 \<le> ih" and "ih \<le> 2 ^ 53"
  shows "\<exists>uw uh w h x y l.
      sub (Fin (pf_width p)) (mul (Fin m) (Fin 2)) = Fin uw
    \<and> sub (Fin (pf_height p)) (mul (Fin m) (Fin 2)) = Fin uh
    \<and> \<bar>uw - (pf_width p - 2 * m)\<bar> \<le> pf_width p / 2 ^ 52
    \<and> \<bar>uh - (pf_height p - 2 * m)\<bar> \<le> pf_height p / 2 ^ 52
    \<and> calculateOptimalLayout c (Fin iw) (Fin ih) pageFormat = Inr l
    \<and> l_width l = Fin w \<and> l_height l = Fin h \<and> l_x l = Fin x \<and> l_y l = Fin y
    \<and> mul (Fin iw) (Math_max (divide_js (Fin uw) (Fin iw)) (divide_js (Fin uh) (Fin ih))) = Fin w
    \<and> mul (Fin ih) (Math_max (divide_js (Fin uw) (Fin iw)) (divide_js (Fin uh) (Fin ih))) = Fin h
    \<and> 0 < w \<and> 0 < h
    \<and> uw - uw / 2 ^ 51 \<le> w \<and> uh - uh / 2 ^ 51 \<le> h
    \<and> \<bar>w / h - iw / ih\<bar> \<le> iw / ih / 2 ^ 51
    \<and> \<bar>x - (m + (uw - w) / 2)\<bar> \<le> (m + uw + w) / 2 ^ 50
    \<and> \<bar>y - (m + (uh - h) / 2)\<bar> \<le> (m + uh + h) / 2 ^ 50"
proof -
  note rr = registered_range [OF assms(1)]
  have m600: "m \<le> 600" using assms(4) rr(2) by linarith
  obtain uw where uw: "sub (Fin (pf_width p)) (mul (Fin m) (Fin 2)) = Fin uw"
      "1 / 2 \<le> uw" "uw \<le> 1201" "\<bar>uw - (pf_width p - 2 * m)\<bar> \<le> pf_width p / 2 ^ 52"
    using usable_step [OF assms(3,4)] rr(2) by auto
  obtain uh where uh: "sub (Fin (pf_height p)) (mul (Fin m) (Fin 2)) = Fin uh"
      "1 / 2 \<le> uh" "uh \<le> 1201" "\<bar>uh - (pf_height p - 2 * m)\<bar> \<le> pf_height p / 2 ^ 52"
    using usable_step [OF assms(3,5)] rr(4) by auto
  define sW where "sW = rnd (uw / iw)"
  define sH where "sH = rnd (uh / ih)"
  define s where "s = max sW sH"
  define w where "w = rnd (iw * s)"
  define h where "h = rnd (ih * s)"
  note qw = quot_step [OF uw(2,3) assms(7,8), folded sW_def]
  note qh = quot_step [OF uh(2,3) assms(9,10), folded sH_def]
  have s1: "1 / 2 ^ 55 \<le> s" and s2: "s \<le> 1202" and s3: "sW \<le> s" and s4: "sH \<le> s"
    using qw(4,5) qh(4,5) by (simp_all add: s_def)
  have s0: "0 < s" using s1 by (meson less_le_trans zero_less_divide_1_iff zero_less_numeral zero_less_power)
  note pw = prod_step [OF assms(7,8) s1 s2, folded w_def]
  note ph = prod_step [OF assms(9,10) s1 s2, folded h_def]
  have iw0: "0 < iw" and ih0: "0 < ih" using assms(7,9) by simp_all
  have "iw * (uw / iw - uw / iw / 2 ^ 53) = uw - uw / 2 ^ 53" using iw0 by (simp add: algebra_simps)
  moreover have "iw * (uw / iw - uw / iw / 2 ^ 53) \<le> iw * sW"
    using mult_left_mono [OF qw(2), of iw] iw0 by simp
  moreover have "iw * sW \<le> iw * s" using s3 iw0 by simp
  ultimately have "uw - uw / 2 ^ 53 \<le> iw * s" by linarith
  then have wb: "uw - uw / 2 ^ 51 \<le> w" using pw(2) uw(2) by (simp; argo)
  have "ih * (uh / ih - uh / ih / 2 ^ 53) = uh - uh / 2 ^ 53" using ih0 by (simp add: algebra_simps)
  moreover have "ih * (uh / ih - uh / ih / 2 ^ 53) \<le> ih * sH"
    using mult_left_mono [OF qh(2), of ih] ih0 by simp
  moreover have "ih * sH \<le> ih * s" using s4 ih0 by simp
  ultimately have "uh - uh / 2 ^ 53 \<le> ih * s" by linarith
  then have hb: "uh - uh / 2 ^ 51 \<le> h" using ph(2) uh(2) by (simp; argo)
  have ratio: "\<bar>w / h - iw / ih\<bar> \<le> iw / ih / 2 ^ 51"
    by (rule ratio_step [OF iw0 ih0 s0 ph(4) pw(2,3) ph(2,3)])
  have w0: "0 \<le> w" and h0: "0 \<le> h" using pw(4) ph(4) by simp_all
  obtain x where x: "add (Fin m) (divide_js (sub (Fin uw) (Fin w)) (Fin 2)) = Fin x"
      "\<bar>x - (m + (uw - w) / 2)\<bar> \<le> (m + uw + w) / 2 ^ 50"
    using centre_step [OF assms(3) m600 uw(2,3) w0 pw(5)] by auto
  obtain y where y: "add (Fin m) (divide_js (sub (Fin uh) (Fin h)) (Fin 2)) = Fin y"
      "\<bar>y - (m + (uh - h) / 2)\<bar> \<le> (m + uh + h) / 2 ^ 50"
    using centre_step [OF assms(3) m600 uh(2,3) h0 ph(5)] by auto
  have calc: "calculateOptimalLayout c (Fin iw) (Fin ih) pageFormat =
      Inr \<lparr>l_width = Fin w, l_height = Fin h, l_x = Fin x, l_y = Fin y,
           l_pageWidth = Some (Fin (pf_width p)), l_pageHeight = Some (Fin (pf_height p)),
           l_fillMode = ''crop''\<rparr>"
    unfolding calculateOptimalLayout_def registered_lookup [OF assms(1)] assms(2,6)
      or_default_margin [OF assms(3)]
    by (simp add: to_number_def uw(1) uh(1) qw(1) qh(1) s_def [symmetric] pw(1) ph(1) x(1) y(1)
          del: add.simps mul.simps divide_js.simps)
  have sc: "mul (Fin iw) (Math_max (divide_js (Fin uw) (Fin iw)) (divide_js (Fin uh) (Fin ih))) = Fin w"
      "mul (Fin ih) (Math_max (divide_js (Fin uw) (Fin iw)) (divide_js (Fin uh) (Fin ih))) = Fin h"
    by (simp_all add: qw(1) qh(1) s_def [symmetric] pw(1) ph(1) del: mul.simps divide_js.simps)
  show ?thesis
    apply (rule exI [of _ uw], rule exI [of _ uh], rule exI [of _ w], rule exI [of _ h])
    apply (rule exI [of _ x], rule exI [of _ y])
    using uw(1,4) uh(1,4) calc sc pw(4) ph(4) wb hb ratio x(2) y(2) by simp
qed

lemma map_of_A4:
  "map_of pageFormats ''A4'' = Some \<lparr>pf_width = rnd 595.28, pf_height = rnd 841.89\<rparr>"
  by (simp add: pageFormats_def)

lemma map_of_Letter: "map_of pageFormats ''Letter'' = Some \<lparr>pf_width = 612, pf_height = 792\<rparr>"
  by (simp add: pageFormats_def)

text \<open>An 800 by 600 image on A4 with margin 10, Fit mode.\<close>

theorem fit_layout_witness:
  "\<exists>w h x y l.
      calculateOptimalLayout (highQualityConfig\<lparr>minimumMargin := Fin 10\<rparr>)
        (Fin 800) (Fin 600) ''A4'' = Inr l
    \<and> l_width l = Fin w \<and> l_height l = Fin h \<and> l_x l = Fin x \<and> l_y l = Fin y
    \<and> 0 < w \<and> 0 < h \<and> \<bar>w / h - 800 / 600\<bar> \<le> 800 / 600 / 2 ^ 51"
proof -
  have "minimumMargin (highQualityConfig\<lparr>minimumMargin := Fin 10\<rparr>) = Fin 10"
    and "fillMode (highQualityConfig\<lparr>minimumMargin := Fin 10\<rparr>) = ''fit''"
    and "2 * 10 + 1 \<le> pf_width \<lparr>pf_width = rnd 595.28, pf_height = rnd 841.89\<rparr>"
    and "2 * 10 + 1 \<le> pf_height \<lparr>pf_width = rnd 595.28, pf_height = rnd 841.89\<rparr>"
    using literal_bounds by (simp_all add: highQualityConfig_def)
  from fit_layout [OF map_of_A4 this(1) _ this(3,4,2), of 800 600]
  show ?thesis by simp blast
qed

text \<open>An 800 by 600 image on Letter without margin, Crop mode.\<close>

theorem crop_layout_witness:
  "\<exists>w h x y l.
      calculateOptimalLayout (highQualityConfig\<lparr>fillMode := ''crop''\<rparr>)
        (Fin 800) (Fin 600) ''Letter'' = Inr l
    \<and> l_width l = Fin w \<and> l_height l = Fin h \<and> l_x l = Fin x \<and> l_y l = Fin y
    \<and> 0 < w \<and> 0 < h \<and> \<bar>w / h - 800 / 600\<bar> \<le> 800 / 600 / 2 ^ 51"
proof -
  have "minimumMargin (highQualityConfig\<lparr>fillMode := ''crop''\<rparr>) = Fin 0"
    and "fillMode (highQualityConfig\<lparr>fillMode := ''crop''\<rparr>) = ''crop''"
    and "2 * 0 + 1 \<le> pf_width \<lparr>pf_width = 612, pf_height = 792\<rparr>"
    and "2 * 0 + 1 \<le> pf_height \<lparr>pf_width = 612, pf_height = 792\<rparr>"
    by (simp_all add: highQualityConfig_def defaultConfig_def)
  from crop_layout [OF map_of_Letter this(1) _ this(3,4,2), of 800 600]
  show ?thesis by simp blast
qed

text \<open>
  C1 as stated fails for an 800 by 600 image on A3 without margin, Fit mode. The
  usable width is the page width, the double nearest to 841.89; the scale is
  \<open>841.89 / 800\<close> rounded, and \<open>800\<close> times that, rounded again, is the next double
  above the page width (841.8900000000001). The width exceeds the usable width, and
  the offset \<open>x\<close> is negative.
\<close>

theorem fit_layout_counterexample:
  "calculateOptimalLayout highQualityConfig (Fin 800) (Fin 600) ''A3'' =
      Inr \<lparr>l_width = Fin (3702671377233347 / 4398046511104), l_height = Fin (1388501766462505 / 2199023255552),
           l_x = Fin (- (1 / 17592186044416)), l_y = Fin (2459090740869857 / 8796093022208),
           l_pageWidth = Some (Fin (7405342754466693 / 8796093022208)), l_pageHeight = Some (Fin (5236094273794867 / 4398046511104)),
           l_fillMode = ''fit''\<rparr>
   \<and> (7405342754466693 / 8796093022208 :: real) - 2 * 0 < 3702671377233347 / 4398046511104"
proof -
  define pw :: real where "pw = 7405342754466693 / 8796093022208"
  have lit_pw: "rnd 841.89 = pw"
  proof -
    have r: "rnd 841.89 = pw"
    proof -
      have "rnd 841.89 = of_int (round_half_even (841.89 * 2 ^ 43)) / 2 ^ 43"
        by (rule rnd_frac) simp_all
      moreover have "round_half_even (841.89 * 2 ^ 43) = 7405342754466693"
        by (rule rhe_near) simp_all
      ultimately show ?thesis unfolding pw_def by simp
    qed
    show ?thesis by (rule r)
  qed
  define ph :: real where "ph = 5236094273794867 / 4398046511104"
  have lit_ph: "rnd 1190.55 = ph"
  proof -
    have r: "rnd 1190.55 = ph"
    proof -
      have "rnd 1190.55 = of_int (round_half_even (1190.55 * 2 ^ 42)) / 2 ^ 42"
        by (rule rnd_frac) simp_all
      moreover have "round_half_even (1190.55 * 2 ^ 42) = 5236094273794867"
        by (rule rhe_near) simp_all
      ultimately show ?thesis unfolding ph_def by simp
    qed
    show ?thesis by (rule r)
  qed
  define mm :: real where "mm = 0"
  have op_mm: "mul (Fin 0) (Fin 2) = Fin mm"
  proof -
    have e: "0 * 2 = (0 :: real)" by simp
    have r: "rnd 0 = mm" unfolding mm_def by simp
    have f: "fl 0 = Fin (rnd 0)" by (rule fl_finite_pow [of _ 100]) simp_all
    have "mul (Fin 0) (Fin 2) = fl (0 * 2)" by (simp add: sub_def)
    also have "\<dots> = Fin mm" by (simp only: e f r)
    finally show ?thesis .
  qed
  define uw :: real where "uw = 7405342754466693 / 8796093022208"
  have op_uw: "sub (Fin pw) (Fin mm) = Fin uw"
  proof -
    have e: "pw - mm = (7405342754466693 / 8796093022208 :: real)" unfolding pw_def mm_def by simp
    have r: "rnd (7405342754466693 / 8796093022208) = uw"
    proof -
      have "rnd (7405342754466693 / 8796093022208) = of_int (round_half_even ((7405342754466693 / 8796093022208) * 2 ^ 43)) / 2 ^ 43"
        by (rule rnd_frac) simp_all
      moreover have "round_half_even ((7405342754466693 / 8796093022208) * 2 ^ 43) = 7405342754466693"
        by (rule rhe_near) simp_all
      ultimately show ?thesis unfolding uw_def by simp
    qed
    have f: "fl (7405342754466693 / 8796093022208) = Fin (rnd (7405342754466693 / 8796093022208))" by (rule fl_finite_pow [of _ 100]) simp_all
    have "sub (Fin pw) (Fin mm) = fl (pw - mm)" by (simp add: sub_def)
    also have "\<dots> = Fin uw" by (simp only: e f r)
    finally show ?thesis .
  qed
  define uh :: real where "uh = 5236094273794867 / 4398046511104"
  have op_uh: "sub (Fin ph) (Fin mm) = Fin uh"
  proof -
    have e: "ph - mm = (5236094273794867 / 4398046511104 :: real)" unfolding ph_def mm_def by simp
    have r: "rnd (5236094273794867 / 4398046511104) = uh"
    proof -
      have "rnd (5236094273794867 / 4398046511104) = of_int (round_half_even ((5236094273794867 / 4398046511104) * 2 ^ 42)) / 2 ^ 42"
        by (rule rnd_frac) simp_all
      moreover have "round_half_even ((5236094273794867 / 4398046511104) * 2 ^ 42) = 5236094273794867"
        by (rule rhe_near) simp_all
      ultimately show ?thesis unfolding uh_def by simp
    qed
    have f: "fl (5236094273794867 / 4398046511104) = Fin (rnd (5236094273794867 / 4398046511104))" by (rule fl_finite_pow [of _ 100]) simp_all
    have "sub (Fin ph) (Fin mm) = fl (ph - mm)" by (simp add: sub_def)
    also have "\<dots> = Fin uh" by (simp only: e f r)
    finally show ?thesis .
  qed
  define sW :: real where "sW = 1184854840714671 / 1125899906842624"
  have op_sW: "divide_js (Fin uw) (Fin 800) = Fin sW"
  proof -
    have e: "uw / 800 = (7405342754466693 / 7036874417766400 :: real)" unfolding uw_def by simp
    have r: "rnd (7405342754466693 / 7036874417766400) = sW"
    proof -
      have "rnd (7405342754466693 / 7036874417766400) = of_int (round_half_even ((7405342754466693 / 7036874417766400) * 2 ^ 52)) / 2 ^ 52"
        by (rule rnd_frac) simp_all
      moreover have "round_half_even ((7405342754466693 / 7036874417766400) * 2 ^ 52) = 4739419362858684"
        by (rule rhe_near) simp_all
      ultimately show ?thesis unfolding sW_def by simp
    qed
    have f: "fl (7405342754466693 / 7036874417766400) = Fin (rnd (7405342754466693 / 7036874417766400))" by (rule fl_finite_pow [of _ 100]) simp_all
    have z: "(800 :: real) \<noteq> 0" by simp
    have "divide_js (Fin uw) (Fin 800) = fl (uw / 800)" by (simp add: sub_def z)
    also have "\<dots> = Fin sW" by (simp only: e f r)
    finally show ?thesis .
  qed
  define sH :: real where "sH = 4468133780304953 / 2251799813685248"
  have op_sH: "divide_js (Fin uh) (Fin 600) = Fin sH"
  proof -
    have e: "uh / 600 = (5236094273794867 / 2638827906662400 :: real)" unfolding uh_def by simp
    have r: "rnd (5236094273794867 / 2638827906662400) = sH"
    proof -
      have "rnd (5236094273794867 / 2638827906662400) = of_int (round_half_even ((5236094273794867 / 2638827906662400) * 2 ^ 52)) / 2 ^ 52"
        by (rule rnd_frac) simp_all
      moreover have "round_half_even ((5236094273794867 / 2638827906662400) * 2 ^ 52) = 8936267560609906"
        by (rule rhe_near) simp_all
      ultimately show ?thesis unfolding sH_def by simp
    qed
    have f: "fl (5236094273794867 / 2638827906662400) = Fin (rnd (5236094273794867 / 2638827906662400))" by (rule fl_finite_pow [of _ 100]) simp_all
    have z: "(600 :: real) \<noteq> 0" by simp
    have "divide_js (Fin uh) (Fin 600) = fl (uh / 600)" by (simp add: sub_def z)
    also have "\<dots> = Fin sH" by (simp only: e f r)
    finally show ?thesis .
  qed
  have mm_0: "min sW sH = sW"
    by (simp add: sW_def sH_def)
  define fw :: real where "fw = 3702671377233347 / 4398046511104"
  have op_fw: "mul (Fin 800) (Fin sW) = Fin fw"
  proof -
    have e: "800 * sW = (29621371017866775 / 35184372088832 :: real)" unfolding sW_def by simp
    have r: "rnd (29621371017866775 / 35184372088832) = fw"
    proof -
      have "rnd (29621371017866775 / 35184372088832) = of_int (round_half_even ((29621371017866775 / 35184372088832) * 2 ^ 43)) / 2 ^ 43"
        by (rule rnd_frac) simp_all
      moreover have "round_half_even ((29621371017866775 / 35184372088832) * 2 ^ 43) = 7405342754466694"
        by (rule rhe_near) simp_all
      ultimately show ?thesis unfolding fw_def by simp
    qed
    have f: "fl (29621371017866775 / 35184372088832) = Fin (rnd (29621371017866775 / 35184372088832))" by (rule fl_finite_pow [of _ 100]) simp_all
    have "mul (Fin 800) (Fin sW) = fl (800 * sW)" by (simp add: sub_def)
    also have "\<dots> = Fin fw" by (simp only: e f r)
    finally show ?thesis .
  qed
  define fh :: real where "fh = 1388501766462505 / 2199023255552"
  have op_fh: "mul (Fin 600) (Fin sW) = Fin fh"
  proof -
    have e: "600 * sW = (88864113053600325 / 140737488355328 :: real)" unfolding sW_def by simp
    have r: "rnd (88864113053600325 / 140737488355328) = fh"
    proof -
      have "rnd (88864113053600325 / 140737488355328) = of_int (round_half_even ((88864113053600325 / 140737488355328) * 2 ^ 43)) / 2 ^ 43"
        by (rule rnd_frac) simp_all
      moreover have "round_half_even ((88864113053600325 / 140737488355328) * 2 ^ 43) = 5554007065850020"
        by (rule rhe_near) simp_all
      ultimately show ?thesis unfolding fh_def by simp
    qed
    have f: "fl (88864113053600325 / 140737488355328) = Fin (rnd (88864113053600325 / 140737488355328))" by (rule fl_finite_pow [of _ 100]) simp_all
    have "mul (Fin 600) (Fin sW) = fl (600 * sW)" by (simp add: sub_def)
    also have "\<dots> = Fin fh" by (simp only: e f r)
    finally show ?thesis .
  qed
  define dw :: real where "dw = - (1 / 8796093022208)"
  have op_dw: "sub (Fin uw) (Fin fw) = Fin dw"
  proof -
    have e: "uw - fw = (- (1 / 8796093022208) :: real)" unfolding uw_def fw_def by simp
    have r: "rnd (- (1 / 8796093022208)) = dw"
    proof -
      have "rnd (- (1 / 8796093022208)) = of_int (round_half_even ((- (1 / 8796093022208)) * 2 ^ 95)) / 2 ^ 95"
        by (rule rnd_frac) simp_all
      moreover have "round_half_even ((- (1 / 8796093022208)) * 2 ^ 95) = (- 4503599627370496)"
        by (rule rhe_near) simp_all
      ultimately show ?thesis unfolding dw_def by simp
    qed
    have f: "fl (- (1 / 8796093022208)) = Fin (rnd (- (1 / 8796093022208)))" by (rule fl_finite_pow [of _ 100]) simp_all
    have "sub (Fin uw) (Fin fw) = fl (uw - fw)" by (simp add: sub_def)
    also have "\<dots> = Fin dw" by (simp only: e f r)
    finally show ?thesis .
  qed
  define dh :: real where "dh = 2459090740869857 / 4398046511104"
  have op_dh: "sub (Fin uh) (Fin fh) = Fin dh"
  proof -
    have e: "uh - fh = (2459090740869857 / 4398046511104 :: real)" unfolding uh_def fh_def by simp
    have r: "rnd (2459090740869857 / 4398046511104) = dh"
    proof -
      have "rnd (2459090740869857 / 4398046511104) = of_int (round_half_even ((2459090740869857 / 4398046511104) * 2 ^ 43)) / 2 ^ 43"
        by (rule rnd_frac) simp_all
      moreover have "round_half_even ((2459090740869857 / 4398046511104) * 2 ^ 43) = 4918181481739714"
        by (rule rhe_near) simp_all
      ultimately show ?thesis unfolding dh_def by simp
    qed
    have f: "fl (2459090740869857 / 4398046511104) = Fin (rnd (2459090740869857 / 4398046511104))" by (rule fl_finite_pow [of _ 100]) simp_all
    have "sub (Fin uh) (Fin fh) = fl (uh - fh)" by (simp add: sub_def)
    also have "\<dots> = Fin dh" by (simp only: e f r)
    finally show ?thesis .
  qed
  define hw :: real where "hw = - (1 / 17592186044416)"
  have op_hw: "divide_js (Fin dw) (Fin 2) = Fin hw"
  proof -
    have e: "dw / 2 = (- (1 / 17592186044416) :: real)" unfolding dw_def by simp
    have r: "rnd (- (1 / 17592186044416)) = hw"
    proof -
      have "rnd (- (1 / 17592186044416)) = of_int (round_half_even ((- (1 / 17592186044416)) * 2 ^ 96)) / 2 ^ 96"
        by (rule rnd_frac) simp_all
      moreover have "round_half_even ((- (1 / 17592186044416)) * 2 ^ 96) = (- 4503599627370496)"
        by (rule rhe_near) simp_all
      ultimately show ?thesis unfolding hw_def by simp
    qed
    have f: "fl (- (1 / 17592186044416)) = Fin (rnd (- (1 / 17592186044416)))" by (rule fl_finite_pow [of _ 100]) simp_all
    have z: "(2 :: real) \<noteq> 0" by simp
    have "divide_js (Fin dw) (Fin 2) = fl (dw / 2)" by (simp add: sub_def z)
    also have "\<dots> = Fin hw" by (simp only: e f r)
    finally show ?thesis .
  qed
  define hh :: real where "hh = 2459090740869857 / 8796093022208"
  have op_hh: "divide_js (Fin dh) (Fin 2) = Fin hh"
  proof -
    have e: "dh / 2 = (2459090740869857 / 8796093022208 :: real)" unfolding dh_def by simp
    have r: "rnd (2459090740869857 / 8796093022208) = hh"
    proof -
      have "rnd (2459090740869857 / 8796093022208) = of_int (round_half_even ((2459090740869857 / 8796093022208) * 2 ^ 44)) / 2 ^ 44"
        by (rule rnd_frac) simp_all
      moreover have "round_half_even ((2459090740869857 / 8796093022208) * 2 ^ 44) = 4918181481739714"
        by (rule rhe_near) simp_all
      ultimately show ?thesis unfolding hh_def by simp
    qed
    have f: "fl (2459090740869857 / 8796093022208) = Fin (rnd (2459090740869857 / 8796093022208))" by (rule fl_finite_pow [of _ 100]) simp_all
    have z: "(2 :: real) \<noteq> 0" by simp
    have "divide_js (Fin dh) (Fin 2) = fl (dh / 2)" by (simp add: sub_def z)
    also have "\<dots> = Fin hh" by (simp only: e f r)
    finally show ?thesis .
  qed
  define px :: real where "px = - (1 / 17592186044416)"
  have op_px: "add (Fin 0) (Fin hw) = Fin px"
  proof -
    have e: "0 + hw = (- (1 / 17592186044416) :: real)" unfolding hw_def by simp
    have r: "rnd (- (1 / 17592186044416)) = px"
    proof -
      have "rnd (- (1 / 17592186044416)) = of_int (round_half_even ((- (1 / 17592186044416)) * 2 ^ 96)) / 2 ^ 96"
        by (rule rnd_frac) simp_all
      moreover have "round_half_even ((- (1 / 17592186044416)) * 2 ^ 96) = (- 4503599627370496)"
        by (rule rhe_near) simp_all
      ultimately show ?thesis unfolding px_def by simp
    qed
    have f: "fl (- (1 / 17592186044416)) = Fin (rnd (- (1 / 17592186044416)))" by (rule fl_finite_pow [of _ 100]) simp_all
    have "add (Fin 0) (Fin hw) = fl (0 + hw)" by (simp add: sub_def)
    also have "\<dots> = Fin px" by (simp only: e f r)
    finally show ?thesis .
  qed
  define py :: real where "py = 2459090740869857 / 8796093022208"
  have op_py: "add (Fin 0) (Fin hh) = Fin py"
  proof -
    have e: "0 + hh = (2459090740869857 / 8796093022208 :: real)" unfolding hh_def by simp
    have r: "rnd (2459090740869857 / 8796093022208) = py"
    proof -
      have "rnd (2459090740869857 / 8796093022208) = of_int (round_half_even ((2459090740869857 / 8796093022208) * 2 ^ 44)) / 2 ^ 44"
        by (rule rnd_frac) simp_all
      moreover have "round_half_even ((2459090740869857 / 8796093022208) * 2 ^ 44) = 4918181481739714"
        by (rule rhe_near) simp_all
      ultimately show ?thesis unfolding py_def by simp
    qed
    have f: "fl (2459090740869857 / 8796093022208) = Fin (rnd (2459090740869857 / 8796093022208))" by (rule fl_finite_pow [of _ 100]) simp_all
    have "add (Fin 0) (Fin hh) = fl (0 + hh)" by (simp add: sub_def)
    also have "\<dots> = Fin py" by (simp only: e f r)
    finally show ?thesis .
  qed
  have pg: "page_lookup ''A3'' = OwnFormat \<lparr>pf_width = pw, pf_height = ph\<rparr>"
    using lit_pw lit_ph by (simp add: page_lookup_def pageFormats_def)
  have "calculateOptimalLayout highQualityConfig (Fin 800) (Fin 600) ''A3'' =
      Inr \<lparr>l_width = Fin fw, l_height = Fin fh,
           l_x = Fin px, l_y = Fin py,
           l_pageWidth = Some (Fin pw), l_pageHeight = Some (Fin ph),
           l_fillMode = ''fit''\<rparr>"
    unfolding calculateOptimalLayout_def pg
    by (simp add: highQualityConfig_def defaultConfig_def or_default_def to_number_def
          op_mm op_uw op_uh op_sW op_sH mm_0 op_fw op_fh op_dw op_dh op_hw op_hh op_px op_py
          del: add.simps mul.simps divide_js.simps)
  then show ?thesis
    unfolding pw_def ph_def mm_def uw_def uh_def sW_def sH_def fw_def fh_def dw_def dh_def hw_def hh_def px_def py_def by simp
qed

text \<open>
  C2 as stated fails for an 800 by 600 image on Legal with margin 15, Crop mode. The
  usable area is 582 by 978; the scale is \<open>978 / 600 = 1.63\<close> rounded, and \<open>600\<close>
  times that, rounded again, is the double just below 978 (977.9999999999999). The
  height is less than the usable height, and the offset \<open>y\<close> lies above the margin.
\<close>

theorem crop_layout_counterexample:
  "calculateOptimalLayout (defaultConfig\<lparr>fillMode := ''crop'', minimumMargin := Fin 15\<rparr>) (Fin 800) (Fin 600) ''Legal'' =
      Inr \<lparr>l_width = Fin 1304, l_height = Fin (8602578975719423 / 8796093022208),
           l_x = Fin (- 346), l_y = Fin (263882790666241 / 17592186044416),
           l_pageWidth = Some (Fin 612), l_pageHeight = Some (Fin 1008),
           l_fillMode = ''crop''\<rparr>
   \<and> 8602578975719423 / 8796093022208 < (1008 :: real) - 2 * 15"
proof -
  define mm :: real where "mm = 30"
  have op_mm: "mul (Fin 15) (Fin 2) = Fin mm"
  proof -
    have e: "15 * 2 = (30 :: real)" by simp
    have r: "rnd 30 = mm"
    proof -
      have "rnd 30 = of_int (round_half_even (30 * 2 ^ 48)) / 2 ^ 48"
        by (rule rnd_frac) simp_all
      moreover have "round_half_even (30 * 2 ^ 48) = 8444249301319680"
        by (rule rhe_near) simp_all
      ultimately show ?thesis unfolding mm_def by simp
    qed
    have f: "fl 30 = Fin (rnd 30)" by (rule fl_finite_pow [of _ 100]) simp_all
    have "mul (Fin 15) (Fin 2) = fl (15 * 2)" by (simp add: sub_def)
    also have "\<dots> = Fin mm" by (simp only: e f r)
    finally show ?thesis .
  qed
  define uw :: real where "uw = 582"
  have op_uw: "sub (Fin 612) (Fin mm) = Fin uw"
  proof -
    have e: "612 - mm = (582 :: real)" unfolding mm_def by simp
    have r: "rnd 582 = uw"
    proof -
      have "rnd 582 = of_int (round_half_even (582 * 2 ^ 43)) / 2 ^ 43"
        by (rule rnd_frac) simp_all
      moreover have "round_half_even (582 * 2 ^ 43) = 5119326138925056"
        by (rule rhe_near) simp_all
      ultimately show ?thesis unfolding uw_def by simp
    qed
    have f: "fl 582 = Fin (rnd 582)" by (rule fl_finite_pow [of _ 100]) simp_all
    have "sub (Fin 612) (Fin mm) = fl (612 - mm)" by (simp add: sub_def)
    also have "\<dots> = Fin uw" by (simp only: e f r)
    finally show ?thesis .
  qed
  define uh :: real where "uh = 978"
  have op_uh: "sub (Fin 1008) (Fin mm) = Fin uh"
  proof -
    have e: "1008 - mm = (978 :: real)" unfolding mm_def by simp
    have r: "rnd 978 = uh"
    proof -
      have "rnd 978 = of_int (round_half_even (978 * 2 ^ 43)) / 2 ^ 43"
        by (rule rnd_frac) simp_all
      moreover have "round_half_even (978 * 2 ^ 43) = 8602578975719424"
        by (rule rhe_near) simp_all
      ultimately show ?thesis unfolding uh_def by simp
    qed
    have f: "fl 978 = Fin (rnd 978)" by (rule fl_finite_pow [of _ 100]) simp_all
    have "sub (Fin 1008) (Fin mm) = fl (1008 - mm)" by (simp add: sub_def)
    also have "\<dots> = Fin uh" by (simp only: e f r)
    finally show ?thesis .
  qed
  define sW :: real where "sW = 819092182228009 / 1125899906842624"
  have op_sW: "divide_js (Fin uw) (Fin 800) = Fin sW"
  proof -
    have e: "uw / 800 = (291 / 400 :: real)" unfolding uw_def by simp
    have r: "rnd (291 / 400) = sW"
    proof -
      have "rnd (291 / 400) = of_int (round_half_even ((291 / 400) * 2 ^ 53)) / 2 ^ 53"
        by (rule rnd_frac) simp_all
      moreover have "round_half_even ((291 / 400) * 2 ^ 53) = 6552737457824072"
        by (rule rhe_near) simp_all
      ultimately show ?thesis unfolding sW_def by simp
    qed
    have f: "fl (291 / 400) = Fin (rnd (291 / 400))" by (rule fl_finite_pow [of _ 100]) simp_all
    have z: "(800 :: real) \<noteq> 0" by simp
    have "divide_js (Fin uw) (Fin 800) = fl (uw / 800)" by (simp add: sub_def z)
    also have "\<dots> = Fin sW" by (simp only: e f r)
    finally show ?thesis .
  qed
  define sH :: real where "sH = 1835216848153477 / 1125899906842624"
  have op_sH: "divide_js (Fin uh) (Fin 600) = Fin sH"
  proof -
    have e: "uh / 600 = (163 / 100 :: real)" unfolding uh_def by simp
    have r: "rnd (163 / 100) = sH"
    proof -
      have "rnd (163 / 100) = of_int (round_half_even ((163 / 100) * 2 ^ 52)) / 2 ^ 52"
        by (rule rnd_frac) simp_all
      moreover have "round_half_even ((163 / 100) * 2 ^ 52) = 7340867392613908"
        by (rule rhe_near) simp_all
      ultimately show ?thesis unfolding sH_def by simp
    qed
    have f: "fl (163 / 100) = Fin (rnd (163 / 100))" by (rule fl_finite_pow [of _ 100]) simp_all
    have z: "(600 :: real) \<noteq> 0" by simp
    have "divide_js (Fin uh) (Fin 600) = fl (uh / 600)" by (simp add: sub_def z)
    also have "\<dots> = Fin sH" by (simp only: e f r)
    finally show ?thesis .
  qed
  have mm_0: "max sW sH = sH"
    by (simp add: sW_def sH_def)
  define fw :: real where "fw = 1304"
  have op_fw: "mul (Fin 800) (Fin sH) = Fin fw"
  proof -
    have e: "800 * sH = (45880421203836925 / 35184372088832 :: real)" unfolding sH_def by simp
    have r: "rnd (45880421203836925 / 35184372088832) = fw"
    proof -
      have "rnd (45880421203836925 / 35184372088832) = of_int (round_half_even ((45880421203836925 / 35184372088832) * 2 ^ 42)) / 2 ^ 42"
        by (rule rnd_frac) simp_all
      moreover have "round_half_even ((45880421203836925 / 35184372088832) * 2 ^ 42) = 5735052650479616"
        by (rule rhe_near) simp_all
      ultimately show ?thesis unfolding fw_def by simp
    qed
    have f: "fl (45880421203836925 / 35184372088832) = Fin (rnd (45880421203836925 / 35184372088832))" by (rule fl_finite_pow [of _ 100]) simp_all
    have "mul (Fin 800) (Fin sH) = fl (800 * sH)" by (simp add: sub_def)
    also have "\<dots> = Fin fw" by (simp only: e f r)
    finally show ?thesis .
  qed
  define fh :: real where "fh = 8602578975719423 / 8796093022208"
  have op_fh: "mul (Fin 600) (Fin sH) = Fin fh"
  proof -
    have e: "600 * sH = (137641263611510775 / 140737488355328 :: real)" unfolding sH_def by simp
    have r: "rnd (137641263611510775 / 140737488355328) = fh"
    proof -
      have "rnd (137641263611510775 / 140737488355328) = of_int (round_half_even ((137641263611510775 / 140737488355328) * 2 ^ 43)) / 2 ^ 43"
        by (rule rnd_frac) simp_all
      moreover have "round_half_even ((137641263611510775 / 140737488355328) * 2 ^ 43) = 8602578975719423"
        by (rule rhe_near) simp_all
      ultimately show ?thesis unfolding fh_def by simp
    qed
    have f: "fl (137641263611510775 / 140737488355328) = Fin (rnd (137641263611510775 / 140737488355328))" by (rule fl_finite_pow [of _ 100]) simp_all
    have "mul (Fin 600) (Fin sH) = fl (600 * sH)" by (simp add: sub_def)
    also have "\<dots> = Fin fh" by (simp only: e f r)
    finally show ?thesis .
  qed
  define dw :: real where "dw = - 722"
  have op_dw: "sub (Fin uw) (Fin fw) = Fin dw"
  proof -
    have e: "uw - fw = (- 722 :: real)" unfolding uw_def fw_def by simp
    have r: "rnd (- 722) = dw"
    proof -
      have "rnd (- 722) = of_int (round_half_even ((- 722) * 2 ^ 43)) / 2 ^ 43"
        by (rule rnd_frac) simp_all
      moreover have "round_half_even ((- 722) * 2 ^ 43) = (- 6350779162034176)"
        by (rule rhe_near) simp_all
      ultimately show ?thesis unfolding dw_def by simp
    qed
    have f: "fl (- 722) = Fin (rnd (- 722))" by (rule fl_finite_pow [of _ 100]) simp_all
    have "sub (Fin uw) (Fin fw) = fl (uw - fw)" by (simp add: sub_def)
    also have "\<dots> = Fin dw" by (simp only: e f r)
    finally show ?thesis .
  qed
  define dh :: real where "dh = 1 / 8796093022208"
  have op_dh: "sub (Fin uh) (Fin fh) = Fin dh"
  proof -
    have e: "uh - fh = (1 / 8796093022208 :: real)" unfolding uh_def fh_def by simp
    have r: "rnd (1 / 8796093022208) = dh"
    proof -
      have "rnd (1 / 8796093022208) = of_int (round_half_even ((1 / 8796093022208) * 2 ^ 95)) / 2 ^ 95"
        by (rule rnd_frac) simp_all
      moreover have "round_half_even ((1 / 8796093022208) * 2 ^ 95) = 4503599627370496"
        by (rule rhe_near) simp_all
      ultimately show ?thesis unfolding dh_def by simp
    qed
    have f: "fl (1 / 8796093022208) = Fin (rnd (1 / 8796093022208))" by (rule fl_finite_pow [of _ 100]) simp_all
    have "sub (Fin uh) (Fin fh) = fl (uh - fh)" by (simp add: sub_def)
    also have "\<dots> = Fin dh" by (simp only: e f r)
    finally show ?thesis .
  qed
  define hw :: real where "hw = - 361"
  have op_hw: "divide_js (Fin dw) (Fin 2) = Fin hw"
  proof -
    have e: "dw / 2 = (- 361 :: real)" unfolding dw_def by simp
    have r: "rnd (- 361) = hw"
    proof -
      have "rnd (- 361) = of_int (round_half_even ((- 361) * 2 ^ 44)) / 2 ^ 44"
        by (rule rnd_frac) simp_all
      moreover have "round_half_even ((- 361) * 2 ^ 44) = (- 6350779162034176)"
        by (rule rhe_near) simp_all
      ultimately show ?thesis unfolding hw_def by simp
    qed
    have f: "fl (- 361) = Fin (rnd (- 361))" by (rule fl_finite_pow [of _ 100]) simp_all
    have z: "(2 :: real) \<noteq> 0" by simp
    have "divide_js (Fin dw) (Fin 2) = fl (dw / 2)" by (simp add: sub_def z)
    also have "\<dots> = Fin hw" by (simp only: e f r)
    finally show ?thesis .
  qed
  define hh :: real where "hh = 1 / 17592186044416"
  have op_hh: "divide_js (Fin dh) (Fin 2) = Fin hh"
  proof -
    have e: "dh / 2 = (1 / 17592186044416 :: real)" unfolding dh_def by simp
    have r: "rnd (1 / 17592186044416) = hh"
    proof -
      have "rnd (1 / 17592186044416) = of_int (round_half_even ((1 / 17592186044416) * 2 ^ 96)) / 2 ^ 96"
        by (rule rnd_frac) simp_all
      moreover have "round_half_even ((1 / 17592186044416) * 2 ^ 96) = 4503599627370496"
        by (rule rhe_near) simp_all
      ultimately show ?thesis unfolding hh_def by simp
    qed
    have f: "fl (1 / 17592186044416) = Fin (rnd (1 / 17592186044416))" by (rule fl_finite_pow [of _ 100]) simp_all
    have z: "(2 :: real) \<noteq> 0" by simp
    have "divide_js (Fin dh) (Fin 2) = fl (dh / 2)" by (simp add: sub_def z)
    also have "\<dots> = Fin hh" by (simp only: e f r)
    finally show ?thesis .
  qed
  define px :: real where "px = - 346"
  have op_px: "add (Fin 15) (Fin hw) = Fin px"
  proof -
    have e: "15 + hw = (- 346 :: real)" unfolding hw_def by simp
    have r: "rnd (- 346) = px"
    proof -
      have "rnd (- 346) = of_int (round_half_even ((- 346) * 2 ^ 44)) / 2 ^ 44"
        by (rule rnd_frac) simp_all
      moreover have "round_half_even ((- 346) * 2 ^ 44) = (- 6086896371367936)"
        by (rule rhe_near) simp_all
      ultimately show ?thesis unfolding px_def by simp
    qed
    have f: "fl (- 346) = Fin (rnd (- 346))" by (rule fl_finite_pow [of _ 100]) simp_all
    have "add (Fin 15) (Fin hw) = fl (15 + hw)" by (simp add: sub_def)
    also have "\<dots> = Fin px" by (simp only: e f r)
    finally show ?thesis .
  qed
  define py :: real where "py = 263882790666241 / 17592186044416"
  have op_py: "add (Fin 15) (Fin hh) = Fin py"
  proof -
    have e: "15 + hh = (263882790666241 / 17592186044416 :: real)" unfolding hh_def by simp
    have r: "rnd (263882790666241 / 17592186044416) = py"
    proof -
      have "rnd (263882790666241 / 17592186044416) = of_int (round_half_even ((263882790666241 / 17592186044416) * 2 ^ 49)) / 2 ^ 49"
        by (rule rnd_frac) simp_all
      moreover have "round_half_even ((263882790666241 / 17592186044416) * 2 ^ 49) = 8444249301319712"
        by (rule rhe_near) simp_all
      ultimately show ?thesis unfolding py_def by simp
    qed
    have f: "fl (263882790666241 / 17592186044416) = Fin (rnd (263882790666241 / 17592186044416))" by (rule fl_finite_pow [of _ 100]) simp_all
    have "add (Fin 15) (Fin hh) = fl (15 + hh)" by (simp add: sub_def)
    also have "\<dots> = Fin py" by (simp only: e f r)
    finally show ?thesis .
  qed
  have pg: "page_lookup ''Legal'' = OwnFormat \<lparr>pf_width = 612, pf_height = 1008\<rparr>"
    by (simp add: page_lookup_def pageFormats_def)
  have "calculateOptimalLayout (defaultConfig\<lparr>fillMode := ''crop'', minimumMargin := Fin 15\<rparr>) (Fin 800) (Fin 600) ''Legal'' =
      Inr \<lparr>l_width = Fin fw, l_height = Fin fh,
           l_x = Fin px, l_y = Fin py,
           l_pageWidth = Some (Fin 612), l_pageHeight = Some (Fin 1008),
           l_fillMode = ''crop''\<rparr>"
    unfolding calculateOptimalLayout_def pg
    by (simp add: defaultConfig_def or_default_def to_number_def
          op_mm op_uw op_uh op_sW op_sH mm_0 op_fw op_fh op_dw op_dh op_hw op_hh op_px op_py
          del: add.simps mul.simps divide_js.simps)
  then show ?thesis
    unfolding mm_def uw_def uh_def sW_def sH_def fw_def fh_def dw_def dh_def hw_def hh_def px_def py_def by simp
qed

text \<open>The two subtractions of the Custom branch.\<close>

lemma custom_step:
  assumes "0 \<le> a" and "0 \<le> b" and "a + b + 1 \<le> pw" and "pw \<le> 1200"
  shows "\<exists>u. sub (sub (Fin pw) (Fin a)) (Fin b) = Fin u
              \<and> \<bar>u - (pw - a - b)\<bar> \<le> pw / 2 ^ 51"
proof -
  define d where "d = rnd (pw - a)"
  define u where "u = rnd (d - b)"
  have b1: "\<bar>pw - a\<bar> \<le> pw" using assms by simp
  have "\<bar>pw - a\<bar> \<le> 2 ^ 11" using assms by simp
  then have "fl (pw - a) = Fin d" unfolding d_def by (rule fl_finite_pow) simp
  then have 1: "sub (Fin pw) (Fin a) = Fin d" by (simp add: sub_def)
  have D: "\<bar>d - (pw - a)\<bar> \<le> pw / 2 ^ 53 + 1 / 2 ^ 100"
    unfolding d_def by (rule rnd_abs_err [OF b1])
  have b2: "\<bar>d - b\<bar> \<le> 2 * pw" using D assms by (simp; argo)
  have "\<bar>d - b\<bar> \<le> 2 ^ 12" using b2 assms(4) by simp
  then have "fl (d - b) = Fin u" unfolding u_def by (rule fl_finite_pow) simp
  then have 2: "sub (Fin d) (Fin b) = Fin u" by (simp add: sub_def)
  have U: "\<bar>u - (d - b)\<bar> \<le> 2 * pw / 2 ^ 53 + 1 / 2 ^ 100"
    unfolding u_def by (rule rnd_abs_err [OF b2])
  have "\<bar>u - (pw - a - b)\<bar> \<le> pw / 2 ^ 51" using D U assms by (simp; argo)
  then show ?thesis using 1 2 by simp
qed

text \<open>
  C3. For a registered page format and any image dimensions: in Stretch mode with
  margin \<open>m\<close> the rectangle is exactly the usable area, the page minus \<open>m * 2\<close> per
  axis as the code computes it, at position \<open>(m, m)\<close>; in Custom mode it is exactly
  the page minus the left and the right, and the top and the bottom, custom margins,
  at position \<open>(left, top)\<close>. The subtractions are those of double arithmetic: for
  margins that are not negative and leave at least one point, the results are finite
  and within the relative error \<open>2^-52\<close> (Stretch) and \<open>2^-51\<close> (Custom) of the exact
  differences.
\<close>

theorem stretch_custom_layout:
  assumes "map_of pageFormats pageFormat = Some p"
  shows "(fillMode c = ''stretch'' \<and> minimumMargin c = Fin m \<longrightarrow>
            calculateOptimalLayout c imgWidth imgHeight pageFormat =
              Inr \<lparr>l_width = sub (Fin (pf_width p)) (mul (Fin m) (Fin 2)),
                   l_height = sub (Fin (pf_height p)) (mul (Fin m) (Fin 2)),
                   l_x = Fin m, l_y = Fin m,
                   l_pageWidth = Some (Fin (pf_width p)), l_pageHeight = Some (Fin (pf_height p)),
                   l_fillMode = ''stretch''\<rparr>
          \<and> (0 \<le> m \<and> 2 * m + 1 \<le> pf_width p \<and> 2 * m + 1 \<le> pf_height p \<longrightarrow>
               (\<exists>w h. sub (Fin (pf_width p)) (mul (Fin m) (Fin 2)) = Fin w
                    \<and> sub (Fin (pf_height p)) (mul (Fin m) (Fin 2)) = Fin h
                    \<and> \<bar>w - (pf_width p - 2 * m)\<bar> \<le> pf_width p / 2 ^ 52
                    \<and> \<bar>h - (pf_height p - 2 * m)\<bar> \<le> pf_height p / 2 ^ 52)))
       \<and> (fillMode c = ''custom'' \<and>
          customMargin c = Some \<lparr>m_top = Fin t, m_bottom = Fin b, m_left = Fin l, m_right = Fin r\<rparr> \<longrightarrow>
            calculateOptimalLayout c imgWidth imgHeight pageFormat =
              Inr \<lparr>l_width = sub (sub (Fin (pf_width p)) (Fin l)) (Fin r),
                   l_height = sub (sub (Fin (pf_height p)) (Fin t)) (Fin b),
                   l_x = Fin l, l_y = Fin t,
                   l_pageWidth = Some (Fin (pf_width p)), l_pageHeight = Some (Fin (pf_height p)),
                   l_fillMode = ''custom''\<rparr>
          \<and> (0 \<le> l \<and> 0 \<le> r \<and> 0 \<le> t \<and> 0 \<le> b
               \<and> l + r + 1 \<le> pf_width p \<and> t + b + 1 \<le> pf_height p \<longrightarrow>
               (\<exists>w h. sub (sub (Fin (pf_width p)) (Fin l)) (Fin r) = Fin w
                    \<and> sub (sub (Fin (pf_height p)) (Fin t)) (Fin b) = Fin h
                    \<and> \<bar>w - (pf_width p - l - r)\<bar> \<le> pf_width p / 2 ^ 51
                    \<and> \<bar>h - (pf_height p - t - b)\<bar> \<le> pf_height p / 2 ^ 51)))"
proof -
  note rr = registered_range [OF assms]
  have pw: "pf_width p \<le> 1200" and ph: "pf_height p \<le> 1200" using rr by simp_all
  have s: "fillMode c = ''stretch'' \<Longrightarrow> minimumMargin c = Fin m \<Longrightarrow>
      calculateOptimalLayout c imgWidth imgHeight pageFormat =
        Inr \<lparr>l_width = sub (Fin (pf_width p)) (mul (Fin m) (Fin 2)),
             l_height = sub (Fin (pf_height p)) (mul (Fin m) (Fin 2)),
             l_x = Fin m, l_y = Fin m,
             l_pageWidth = Some (Fin (pf_width p)), l_pageHeight = Some (Fin (pf_height p)),
             l_fillMode = ''stretch''\<rparr>"
    unfolding calculateOptimalLayout_def registered_lookup [OF assms]
    by (simp add: to_number_def or_default_def Let_def del: mul.simps)
  have sa: "0 \<le> m \<Longrightarrow> 2 * m + 1 \<le> pf_width p \<Longrightarrow> 2 * m + 1 \<le> pf_height p \<Longrightarrow>
      \<exists>w h. sub (Fin (pf_width p)) (mul (Fin m) (Fin 2)) = Fin w
           \<and> sub (Fin (pf_height p)) (mul (Fin m) (Fin 2)) = Fin h
           \<and> \<bar>w - (pf_width p - 2 * m)\<bar> \<le> pf_width p / 2 ^ 52
           \<and> \<bar>h - (pf_height p - 2 * m)\<bar> \<le> pf_height p / 2 ^ 52"
    using usable_step [of m "pf_width p"] usable_step [of m "pf_height p"] pw ph by blast
  have cu: "fillMode c = ''custom'' \<Longrightarrow>
      customMargin c = Some \<lparr>m_top = Fin t, m_bottom = Fin b, m_left = Fin l, m_right = Fin r\<rparr> \<Longrightarrow>
      calculateOptimalLayout c imgWidth imgHeight pageFormat =
        Inr \<lparr>l_width = sub (sub (Fin (pf_width p)) (Fin l)) (Fin r),
             l_height = sub (sub (Fin (pf_height p)) (Fin t)) (Fin b),
             l_x = Fin l, l_y = Fin t,
             l_pageWidth = Some (Fin (pf_width p)), l_pageHeight = Some (Fin (pf_height p)),
             l_fillMode = ''custom''\<rparr>"
    unfolding calculateOptimalLayout_def registered_lookup [OF assms]
    by (simp add: to_number_def)
  have ca: "0 \<le> l \<Longrightarrow> 0 \<le> r \<Longrightarrow> 0 \<le> t \<Longrightarrow> 0 \<le> b \<Longrightarrow>
      l + r + 1 \<le> pf_width p \<Longrightarrow> t + b + 1 \<le> pf_height p \<Longrightarrow>
      \<exists>w h. sub (sub (Fin (pf_width p)) (Fin l)) (Fin r) = Fin w
           \<and> sub (sub (Fin (pf_height p)) (Fin t)) (Fin b) = Fin h
           \<and> \<bar>w - (pf_width p - l - r)\<bar> \<le> pf_width p / 2 ^ 51
           \<and> \<bar>h - (pf_height p - t - b)\<bar> \<le> pf_height p / 2 ^ 51"
    using custom_step [of l r "pf_width p"] custom_step [of t b "pf_height p"] pw ph by blast
  show ?thesis using s sa cu ca by blast
qed

text \<open>The doubles of the examples below.\<close>

lemma stretch_custom_example:
  "sub (Fin (rnd 595.28)) (mul (Fin 10) (Fin 2)) = Fin (2530108196907909 / 4398046511104)"
  "sub (Fin (rnd 841.89)) (mul (Fin 10) (Fin 2)) = Fin (7229420894022533 / 8796093022208)"
  "sub (sub (Fin (rnd 595.28)) (Fin 0)) (Fin 0) = Fin (2618069127129989 / 4398046511104)"
  "sub (sub (Fin (rnd 841.89)) (Fin 15)) (Fin 15) = Fin (7141459963800453 / 8796093022208)"
proof -
  define c0 :: real where "c0 = 2618069127129989 / 4398046511104"
  have lit_c0: "rnd 595.28 = c0"
  proof -
    have r: "rnd 595.28 = c0"
    proof -
      have "rnd 595.28 = of_int (round_half_even (595.28 * 2 ^ 43)) / 2 ^ 43"
        by (rule rnd_frac) simp_all
      moreover have "round_half_even (595.28 * 2 ^ 43) = 5236138254259978"
        by (rule rhe_near) simp_all
      ultimately show ?thesis unfolding c0_def by simp
    qed
    show ?thesis by (rule r)
  qed
  define v1 :: real where "v1 = 20"
  have op_v1: "mul (Fin 10) (Fin 2) = Fin v1"
  proof -
    have e: "10 * 2 = (20 :: real)" by simp
    have r: "rnd 20 = v1"
    proof -
      have "rnd 20 = of_int (round_half_even (20 * 2 ^ 48)) / 2 ^ 48"
        by (rule rnd_frac) simp_all
      moreover have "round_half_even (20 * 2 ^ 48) = 5629499534213120"
        by (rule rhe_near) simp_all
      ultimately show ?thesis unfolding v1_def by simp
    qed
    have f: "fl 20 = Fin (rnd 20)" by (rule fl_finite_pow [of _ 100]) simp_all
    have "mul (Fin 10) (Fin 2) = fl (10 * 2)" by (simp add: sub_def)
    also have "\<dots> = Fin v1" by (simp only: e f r)
    finally show ?thesis .
  qed
  define v2 :: real where "v2 = 2530108196907909 / 4398046511104"
  have op_v2: "sub (Fin c0) (Fin v1) = Fin v2"
  proof -
    have e: "c0 - v1 = (2530108196907909 / 4398046511104 :: real)" unfolding c0_def v1_def by simp
    have r: "rnd (2530108196907909 / 4398046511104) = v2"
    proof -
      have "rnd (2530108196907909 / 4398046511104) = of_int (round_half_even ((2530108196907909 / 4398046511104) * 2 ^ 43)) / 2 ^ 43"
        by (rule rnd_frac) simp_all
      moreover have "round_half_even ((2530108196907909 / 4398046511104) * 2 ^ 43) = 5060216393815818"
        by (rule rhe_near) simp_all
      ultimately show ?thesis unfolding v2_def by simp
    qed
    have f: "fl (2530108196907909 / 4398046511104) = Fin (rnd (2530108196907909 / 4398046511104))" by (rule fl_finite_pow [of _ 100]) simp_all
    have "sub (Fin c0) (Fin v1) = fl (c0 - v1)" by (simp add: sub_def)
    also have "\<dots> = Fin v2" by (simp only: e f r)
    finally show ?thesis .
  qed
  define c1 :: real where "c1 = 7405342754466693 / 8796093022208"
  have lit_c1: "rnd 841.89 = c1"
  proof -
    have r: "rnd 841.89 = c1"
    proof -
      have "rnd 841.89 = of_int (round_half_even (841.89 * 2 ^ 43)) / 2 ^ 43"
        by (rule rnd_frac) simp_all
      moreover have "round_half_even (841.89 * 2 ^ 43) = 7405342754466693"
        by (rule rhe_near) simp_all
      ultimately show ?thesis unfolding c1_def by simp
    qed
    show ?thesis by (rule r)
  qed
  define v3 :: real where "v3 = 7229420894022533 / 8796093022208"
  have op_v3: "sub (Fin c1) (Fin v1) = Fin v3"
  proof -
    have e: "c1 - v1 = (7229420894022533 / 8796093022208 :: real)" unfolding c1_def v1_def by simp
    have r: "rnd (7229420894022533 / 8796093022208) = v3"
    proof -
      have "rnd (7229420894022533 / 8796093022208) = of_int (round_half_even ((7229420894022533 / 8796093022208) * 2 ^ 43)) / 2 ^ 43"
        by (rule rnd_frac) simp_all
      moreover have "round_half_even ((7229420894022533 / 8796093022208) * 2 ^ 43) = 7229420894022533"
        by (rule rhe_near) simp_all
      ultimately show ?thesis unfolding v3_def by simp
    qed
    have f: "fl (7229420894022533 / 8796093022208) = Fin (rnd (7229420894022533 / 8796093022208))" by (rule fl_finite_pow [of _ 100]) simp_all
    have "sub (Fin c1) (Fin v1) = fl (c1 - v1)" by (simp add: sub_def)
    also have "\<dots> = Fin v3" by (simp only: e f r)
    finally show ?thesis .
  qed
  define v4 :: real where "v4 = 2618069127129989 / 4398046511104"
  have op_v4: "sub (Fin c0) (Fin 0) = Fin v4"
  proof -
    have e: "c0 - 0 = (2618069127129989 / 4398046511104 :: real)" unfolding c0_def by simp
    have r: "rnd (2618069127129989 / 4398046511104) = v4"
    proof -
      have "rnd (2618069127129989 / 4398046511104) = of_int (round_half_even ((2618069127129989 / 4398046511104) * 2 ^ 43)) / 2 ^ 43"
        by (rule rnd_frac) simp_all
      moreover have "round_half_even ((2618069127129989 / 4398046511104) * 2 ^ 43) = 5236138254259978"
        by (rule rhe_near) simp_all
      ultimately show ?thesis unfolding v4_def by simp
    qed
    have f: "fl (2618069127129989 / 4398046511104) = Fin (rnd (2618069127129989 / 4398046511104))" by (rule fl_finite_pow [of _ 100]) simp_all
    have "sub (Fin c0) (Fin 0) = fl (c0 - 0)" by (simp add: sub_def)
    also have "\<dots> = Fin v4" by (simp only: e f r)
    finally show ?thesis .
  qed
  define v5 :: real where "v5 = 2618069127129989 / 4398046511104"
  have op_v5: "sub (Fin v4) (Fin 0) = Fin v5"
  proof -
    have e: "v4 - 0 = (2618069127129989 / 4398046511104 :: real)" unfolding v4_def by simp
    have r: "rnd (2618069127129989 / 4398046511104) = v5"
    proof -
      have "rnd (2618069127129989 / 4398046511104) = of_int (round_half_even ((2618069127129989 / 4398046511104) * 2 ^ 43)) / 2 ^ 43"
        by (rule rnd_frac) simp_all
      moreover have "round_half_even ((2618069127129989 / 4398046511104) * 2 ^ 43) = 5236138254259978"
        by (rule rhe_near) simp_all
      ultimately show ?thesis unfolding v5_def by simp
    qed
    have f: "fl (2618069127129989 / 4398046511104) = Fin (rnd (2618069127129989 / 4398046511104))" by (rule fl_finite_pow [of _ 100]) simp_all
    have "sub (Fin v4) (Fin 0) = fl (v4 - 0)" by (simp add: sub_def)
    also have "\<dots> = Fin v5" by (simp only: e f r)
    finally show ?thesis .
  qed
  define v6 :: real where "v6 = 7273401359133573 / 8796093022208"
  have op_v6: "sub (Fin c1) (Fin 15) = Fin v6"
  proof -
    have e: "c1 - 15 = (7273401359133573 / 8796093022208 :: real)" unfolding c1_def by simp
    have r: "rnd (7273401359133573 / 8796093022208) = v6"
    proof -
      have "rnd (7273401359133573 / 8796093022208) = of_int (round_half_even ((7273401359133573 / 8796093022208) * 2 ^ 43)) / 2 ^ 43"
        by (rule rnd_frac) simp_all
      moreover have "round_half_even ((7273401359133573 / 8796093022208) * 2 ^ 43) = 7273401359133573"
        by (rule rhe_near) simp_all
      ultimately show ?thesis unfolding v6_def by simp
    qed
    have f: "fl (7273401359133573 / 8796093022208) = Fin (rnd (7273401359133573 / 8796093022208))" by (rule fl_finite_pow [of _ 100]) simp_all
    have "sub (Fin c1) (Fin 15) = fl (c1 - 15)" by (simp add: sub_def)
    also have "\<dots> = Fin v6" by (simp only: e f r)
    finally show ?thesis .
  qed
  define v7 :: real where "v7 = 7141459963800453 / 8796093022208"
  have op_v7: "sub (Fin v6) (Fin 15) = Fin v7"
  proof -
    have e: "v6 - 15 = (7141459963800453 / 8796093022208 :: real)" unfolding v6_def by simp
    have r: "rnd (7141459963800453 / 8796093022208) = v7"
    proof -
      have "rnd (7141459963800453 / 8796093022208) = of_int (round_half_even ((7141459963800453 / 8796093022208) * 2 ^ 43)) / 2 ^ 43"
        by (rule rnd_frac) simp_all
      moreover have "round_half_even ((7141459963800453 / 8796093022208) * 2 ^ 43) = 7141459963800453"
        by (rule rhe_near) simp_all
      ultimately show ?thesis unfolding v7_def by simp
    qed
    have f: "fl (7141459963800453 / 8796093022208) = Fin (rnd (7141459963800453 / 8796093022208))" by (rule fl_finite_pow [of _ 100]) simp_all
    have "sub (Fin v6) (Fin 15) = fl (v6 - 15)" by (simp add: sub_def)
    also have "\<dots> = Fin v7" by (simp only: e f r)
    finally show ?thesis .
  qed
  have "sub (Fin (rnd 595.28)) (mul (Fin 10) (Fin 2)) = Fin v2"
    by (simp only: lit_c0 op_v1 op_v2 lit_c1 op_v3 op_v4 op_v5 op_v6 op_v7)
  then show "sub (Fin (rnd 595.28)) (mul (Fin 10) (Fin 2)) = Fin (2530108196907909 / 4398046511104)"
    unfolding v2_def .
  have "sub (Fin (rnd 841.89)) (mul (Fin 10) (Fin 2)) = Fin v3"
    by (simp only: lit_c0 op_v1 op_v2 lit_c1 op_v3 op_v4 op_v5 op_v6 op_v7)
  then show "sub (Fin (rnd 841.89)) (mul (Fin 10) (Fin 2)) = Fin (7229420894022533 / 8796093022208)"
    unfolding v3_def .
  have "sub (sub (Fin (rnd 595.28)) (Fin 0)) (Fin 0) = Fin v5"
    by (simp only: lit_c0 op_v1 op_v2 lit_c1 op_v3 op_v4 op_v5 op_v6 op_v7)
  then show "sub (sub (Fin (rnd 595.28)) (Fin 0)) (Fin 0) = Fin (2618069127129989 / 4398046511104)"
    unfolding v5_def .
  have "sub (sub (Fin (rnd 841.89)) (Fin 15)) (Fin 15) = Fin v7"
    by (simp only: lit_c0 op_v1 op_v2 lit_c1 op_v3 op_v4 op_v5 op_v6 op_v7)
  then show "sub (sub (Fin (rnd 841.89)) (Fin 15)) (Fin 15) = Fin (7141459963800453 / 8796093022208)"
    unfolding v7_def .
qed

text \<open>The page dimensions that are not integers, as doubles.\<close>

lemma page_literals:
  "rnd 595.28 = 2618069127129989 / 4398046511104"
  "rnd 841.89 = 7405342754466693 / 8796093022208"
  "rnd 1190.55 = 5236094273794867 / 4398046511104"
proof -
  show "rnd 595.28 = 2618069127129989 / 4398046511104"
  proof -
    have r: "rnd 595.28 = (2618069127129989 / 4398046511104)"
    proof -
      have "rnd 595.28 = of_int (round_half_even (595.28 * 2 ^ 43)) / 2 ^ 43"
        by (rule rnd_frac) simp_all
      moreover have "round_half_even (595.28 * 2 ^ 43) = 5236138254259978"
        by (rule rhe_near) simp_all
      ultimately show ?thesis by simp
    qed
    show ?thesis by (rule r)
  qed
  show "rnd 841.89 = 7405342754466693 / 8796093022208"
  proof -
    have r: "rnd 841.89 = (7405342754466693 / 8796093022208)"
    proof -
      have "rnd 841.89 = of_int (round_half_even (841.89 * 2 ^ 43)) / 2 ^ 43"
        by (rule rnd_frac) simp_all
      moreover have "round_half_even (841.89 * 2 ^ 43) = 7405342754466693"
        by (rule rhe_near) simp_all
      ultimately show ?thesis by simp
    qed
    show ?thesis by (rule r)
  qed
  show "rnd 1190.55 = 5236094273794867 / 4398046511104"
  proof -
    have r: "rnd 1190.55 = (5236094273794867 / 4398046511104)"
    proof -
      have "rnd 1190.55 = of_int (round_half_even (1190.55 * 2 ^ 42)) / 2 ^ 42"
        by (rule rnd_frac) simp_all
      moreover have "round_half_even (1190.55 * 2 ^ 42) = 5236094273794867"
        by (rule rhe_near) simp_all
      ultimately show ?thesis by simp
    qed
    show ?thesis by (rule r)
  qed
qed


text \<open>A4 stretched with margin 10, and A4 under the default custom margins.\<close>

theorem stretch_custom_layout_witness:
  "calculateOptimalLayout (highQualityConfig\<lparr>fillMode := ''stretch'', minimumMargin := Fin 10\<rparr>)
       (Fin 800) (Fin 600) ''A4''
     = Inr \<lparr>l_width = Fin (2530108196907909 / 4398046511104),
            l_height = Fin (7229420894022533 / 8796093022208), l_x = Fin 10, l_y = Fin 10,
            l_pageWidth = Some (Fin (rnd 595.28)), l_pageHeight = Some (Fin (rnd 841.89)),
            l_fillMode = ''stretch''\<rparr>
   \<and> calculateOptimalLayout defaultConfig (Fin 800) (Fin 600) ''A4''
     = Inr \<lparr>l_width = Fin (2618069127129989 / 4398046511104),
            l_height = Fin (7141459963800453 / 8796093022208), l_x = Fin 0, l_y = Fin 15,
            l_pageWidth = Some (Fin (rnd 595.28)), l_pageHeight = Some (Fin (rnd 841.89)),
            l_fillMode = ''custom''\<rparr>"
  using stretch_custom_layout [OF map_of_A4,
      where c = "highQualityConfig\<lparr>fillMode := ''stretch'', minimumMargin := Fin 10\<rparr>"
        and m = 10 and imgWidth = "Fin 800" and imgHeight = "Fin 600"]
    stretch_custom_layout [OF map_of_A4,
      where c = defaultConfig and t = 15 and b = 15 and l = 0 and r = 0
        and imgWidth = "Fin 800" and imgHeight = "Fin 600"]
    stretch_custom_example
  by (simp add: highQualityConfig_def defaultConfig_def del: mul.simps)

text \<open>
  C8. For a registered page format, whatever the fill mode, the margins and the image
  dimensions are, the layout is returned and its \<open>pageWidth\<close> and \<open>pageHeight\<close> are
  the dimensions of the format in the table, not those of the usable area.
\<close>

theorem page_dimensions_echoed:
  assumes "map_of pageFormats pageFormat = Some p"
  shows "\<exists>l. calculateOptimalLayout c imgWidth imgHeight pageFormat = Inr l
           \<and> l_pageWidth l = Some (Fin (pf_width p))
           \<and> l_pageHeight l = Some (Fin (pf_height p))"
  using assms
  by (simp add: calculateOptimalLayout_def registered_lookup Let_def split: prod.splits)

text \<open>A4 with margin 10: the page dimensions are the doubles nearest to 595.28 and
  841.89.\<close>

theorem page_dimensions_echoed_witness:
  "\<exists>l. calculateOptimalLayout (highQualityConfig\<lparr>minimumMargin := Fin 10\<rparr>)
           (Fin 800) (Fin 600) ''A4'' = Inr l
       \<and> l_pageWidth l = Some (Fin (2618069127129989 / 4398046511104))
       \<and> l_pageHeight l = Some (Fin (7405342754466693 / 8796093022208))"
  using page_dimensions_echoed [OF map_of_A4,
      of "highQualityConfig\<lparr>minimumMargin := Fin 10\<rparr>" "Fin 800" "Fin 600"]
  unfolding page_literals [symmetric] by simp



text \<open>A name found neither in the table nor on \<open>Object.prototype\<close> is rejected.\<close>

lemma unknown_format_throws:
  "page_lookup pageFormat = Undefined \<Longrightarrow>
     calculateOptimalLayout c imgWidth imgHeight pageFormat = Inl (UnknownPageFormat pageFormat)"
  by (simp add: calculateOptimalLayout_def)

lemma page_lookup_Undefined:
  "page_lookup pageFormat = Undefined \<longleftrightarrow>
     map_of pageFormats pageFormat = None \<and> pageFormat \<notin> set objectPrototypeKeys"
  by (simp add: page_lookup_def split: option.splits)

text \<open>
  C6. Every page-format name outside the table should fail with
  \<open>UnknownPageFormat\<close>. The name \<open>"constructor"\<close> is not a key of the table, yet the
  property read finds \<open>Object.prototype.constructor\<close>, the guard \<open>!page\<close> is false, and
  a layout made of \<open>NaN\<close> and \<open>undefined\<close> is returned.
\<close>

theorem inherited_name_not_rejected:
  "map_of pageFormats ''constructor'' = None
   \<and> calculateOptimalLayout defaultConfig (Fin 800) (Fin 600) ''constructor''
     = Inr \<lparr>l_width = NaN, l_height = NaN, l_x = Fin 0, l_y = Fin 15,
            l_pageWidth = None, l_pageHeight = None, l_fillMode = ''custom''\<rparr>"
  by (simp add: calculateOptimalLayout_def page_lookup_def pageFormats_def objectPrototypeKeys_def
      defaultConfig_def sub_def to_number_def Let_def)

section \<open>Properties of the group ordering\<close>

lemma set_insert_by: "set (insert_by cmp a bs) = insert a (set bs)"
  by (induction bs) auto

lemma mset_insert_by: "mset (insert_by cmp a bs) = add_mset a (mset bs)"
  by (induction bs) auto

lemma mset_sort_by: "mset (sort_by cmp as) = mset as"
  by (induction as) (auto simp: mset_insert_by)

lemma sorted_insert_by:
  assumes total: "\<And>a b. 0 < cmp a b \<Longrightarrow> cmp b a \<le> 0"
    and trans: "\<And>a b c. cmp a b \<le> 0 \<Longrightarrow> cmp b c \<le> 0 \<Longrightarrow> cmp a c \<le> 0"
  shows "sorted_wrt (\<lambda>a b. cmp a b \<le> 0) bs \<Longrightarrow> sorted_wrt (\<lambda>a b. cmp a b \<le> 0) (insert_by cmp a bs)"
proof (induction bs)
  case Nil
  then show ?case by simp
next
  case (Cons b bs)
  show ?case
  proof (cases "cmp a b \<le> 0")
    case True
    then have "\<forall>y\<in>set bs. cmp a y \<le> 0"
      using Cons.prems trans by auto
    with True Cons.prems show ?thesis by simp
  next
    case False
    then have "cmp b a \<le> 0" using total by simp
    with False Cons show ?thesis by (auto simp: set_insert_by)
  qed
qed

lemma sorted_sort_by:
  assumes "\<And>a b. 0 < cmp a b \<Longrightarrow> cmp b a \<le> 0"
    and "\<And>a b c. cmp a b \<le> 0 \<Longrightarrow> cmp b c \<le> 0 \<Longrightarrow> cmp a c \<le> 0"
  shows "sorted_wrt (\<lambda>a b. cmp a b \<le> 0) (sort_by cmp as)"
  by (induction as) (simp_all add: sorted_insert_by [OF assms])

text \<open>The difference of two distinct doubles has the sign of their order.\<close>

lemma fl_cases: "fl x = Fin (rnd x) \<or> fl x = PosInf \<or> fl x = NegInf"
  by (simp add: fl_def Let_def)

lemma fl_sign_pos:
  assumes "1 / units \<le> x"
  shows "sign_js (fl x) = 1"
proof -
  have "0 < x" using assms units_pos by (meson less_le_trans zero_less_divide_1_iff)
  moreover have "0 < rnd x" by (rule rnd_pos [OF assms])
  ultimately show ?thesis by (simp add: fl_def Let_def)
qed

lemma fl_sign_neg:
  assumes "x \<le> - (1 / units)"
  shows "sign_js (fl x) = - 1"
proof -
  have "0 < 1 / units" using units_pos by simp
  then have "x < 0" using assms by linarith
  moreover have "rnd x < 0" by (rule rnd_neg [OF assms])
  ultimately show ?thesis by (simp add: fl_def Let_def)
qed

lemma grid_apart:
  assumes "rnd x < rnd y"
  shows "1 / units \<le> rnd y - rnd x"
proof -
  obtain k :: int where k: "rnd x * units = of_int k" using rnd_grid by blast
  obtain j :: int where j: "rnd y * units = of_int j" using rnd_grid by blast
  have "rnd x * units < rnd y * units" using assms units_pos by simp
  then have "k < j" unfolding k j by simp
  then have "k + 1 \<le> j" by simp
  then have "(of_int k :: real) + 1 \<le> of_int j" by linarith
  then have "1 \<le> (rnd y - rnd x) * units" unfolding k [symmetric] j [symmetric]
    by (simp add: algebra_simps)
  then show ?thesis using units_pos by (simp add: field_simps)
qed

lemma sign_sub_fl:
  assumes "fl x \<noteq> fl y"
  shows "sign_js (sub (fl x) (fl y)) = (if less_number (fl x) (fl y) then - 1 else 1)"
proof -
  have fin: "rnd x \<noteq> rnd y \<Longrightarrow> sign_js (sub (Fin (rnd x)) (Fin (rnd y)))
      = (if less_number (Fin (rnd x)) (Fin (rnd y)) then - 1 else 1)"
  proof (cases "rnd x < rnd y")
    case True
    have "rnd x - rnd y \<le> - (1 / units)" using grid_apart [OF True] by linarith
    then have "sign_js (fl (rnd x - rnd y)) = - 1" by (rule fl_sign_neg)
    then show ?thesis using True by (simp add: sub_def)
  next
    case False
    assume "rnd x \<noteq> rnd y"
    then have "rnd y < rnd x" using False by simp
    then have "1 / units \<le> rnd x - rnd y" by (rule grid_apart)
    then have "sign_js (fl (rnd x - rnd y)) = 1" by (rule fl_sign_pos)
    then show ?thesis using False by (simp add: sub_def)
  qed
  from fl_cases [of x] fl_cases [of y] assms fin show ?thesis
    by (elim disjE) (auto simp: sub_def)
qed

lemma less_fl_total:
  "fl x \<noteq> fl y \<Longrightarrow> less_number (fl x) (fl y) \<or> less_number (fl y) (fl x)"
  using fl_cases [of x] fl_cases [of y] by (elim disjE) auto

lemma less_number_trans:
  "less_number a b \<Longrightarrow> less_number b c \<Longrightarrow> less_number a c"
  by (cases a; cases b; cases c) simp_all

lemma less_number_asym: "less_number a b \<Longrightarrow> \<not> less_number b a"
  by (cases a; cases b) simp_all

lemma less_number_irrefl: "\<not> less_number a a"
  by (cases a) simp_all

lemma numKey_fl: "numKey nm = fl (of_int (firstInteger nm))"
  by (simp add: numKey_def firstInteger_def parseInt_def)

lemma compareFiles_sign:
  "compareFiles lc a b =
     (if numKey (img_name a) = numKey (img_name b) then lc (img_name a) (img_name b)
      else if less_number (numKey (img_name a)) (numKey (img_name b)) then - 1 else 1)"
  using sign_sub_fl [of "of_int (firstInteger (img_name a))" "of_int (firstInteger (img_name b))"]
  by (simp add: compareFiles_def Let_def numKey_fl)

lemma compareFiles_le:
  "compareFiles lc a b \<le> 0 \<longleftrightarrow>
     less_number (numKey (img_name a)) (numKey (img_name b))
     \<or> (numKey (img_name a) = numKey (img_name b) \<and> lc (img_name a) (img_name b) \<le> 0)"
  by (auto simp: compareFiles_sign less_number_irrefl)

lemma compareFiles_total:
  assumes "\<And>a b. 0 < lc a b \<Longrightarrow> lc b a \<le> 0"
  shows "0 < compareFiles lc a b \<Longrightarrow> compareFiles lc b a \<le> 0"
  using assms [of "img_name a" "img_name b"]
    less_fl_total [of "of_int (firstInteger (img_name a))" "of_int (firstInteger (img_name b))"]
  by (auto simp: compareFiles_sign numKey_fl split: if_splits)

lemma compareFiles_trans:
  assumes "\<And>a b c. lc a b \<le> 0 \<Longrightarrow> lc b c \<le> 0 \<Longrightarrow> lc a c \<le> 0"
  shows "compareFiles lc a b \<le> 0 \<Longrightarrow> compareFiles lc b c \<le> 0 \<Longrightarrow> compareFiles lc a c \<le> 0"
  using assms [of "img_name a" "img_name b" "img_name c"]
  unfolding compareFiles_le by (auto dest: less_number_trans)

text \<open>The key of a name whose first integer is at most \<open>2^53\<close> is that integer.\<close>

lemma decimal_nonneg:
  "0 \<le> n \<Longrightarrow> \<forall>ch\<in>set ds. is_digit ch \<Longrightarrow>
     0 \<le> foldl (\<lambda>n ch. 10 * n + (of_char ch - 48)) (n::int) ds"
proof (induction ds arbitrary: n)
  case Nil
  then show ?case by simp
next
  case (Cons ch ds)
  have "is_digit ch" using Cons.prems(2) by simp
  then have "(48::int) \<le> of_char ch" by (auto simp: is_digit_def)
  then have "0 \<le> 10 * n + (of_char ch - 48)" using Cons.prems(1) by linarith
  then show ?case using Cons.IH Cons.prems(2) by simp
qed

lemma firstInteger_nonneg: "0 \<le> firstInteger nm"
proof -
  have "\<forall>ch\<in>set (case first_digits nm of None \<Rightarrow> ''0'' | Some ds \<Rightarrow> ds). is_digit ch"
    by (auto simp: first_digits_def Let_def is_digit_def dest: set_takeWhileD split: option.splits if_splits)
  then show ?thesis unfolding firstInteger_def decimal_def by (intro decimal_nonneg) simp_all
qed

lemma fl_int_exact:
  assumes "0 \<le> n" and "n \<le> 2 ^ 53"
  shows "fl (of_int n) = Fin (of_int n)"
proof -
  have "\<bar>of_int n :: real\<bar> \<le> 2 ^ 53" using assms by simp
  then have "fl (of_int n) = Fin (rnd (of_int n))" by (rule fl_finite_pow) simp
  then show ?thesis by (simp add: rnd_int_exact [OF assms])
qed

lemma numKey_exact: "firstInteger nm \<le> 2 ^ 53 \<Longrightarrow> numKey nm = Fin (of_int (firstInteger nm))"
  unfolding numKey_fl by (rule fl_int_exact [OF firstInteger_nonneg])

lemma numKey_examples:
  "numKey ''2.jpg'' = Fin 2" "numKey ''10.jpg'' = Fin 10" "numKey ''1.jpg'' = Fin 1"
proof -
  have "firstInteger ''2.jpg'' = 2" "firstInteger ''10.jpg'' = 10" "firstInteger ''1.jpg'' = 1"
    by (simp_all add: firstInteger_def first_digits_def is_digit_def decimal_def)
  then show "numKey ''2.jpg'' = Fin 2" "numKey ''10.jpg'' = Fin 10" "numKey ''1.jpg'' = Fin 1"
    using numKey_exact [of "''2.jpg''"] numKey_exact [of "''10.jpg''"] numKey_exact [of "''1.jpg''"]
    by simp_all
qed

lemma img_name_toImageFile: "img_name (toImageFile d dir file) = file"
  by (simp add: toImageFile_def)

text \<open>
  C7 (as amended). Provided the collation is a consistent comparison (total and
  transitive), the names returned by \<open>getImageFiles\<close> are ordered by the number that
  \<open>parseInt\<close> makes of the first integer embedded in the name (the nearest double)
  and, where these numbers are equal, by \<open>localeCompare\<close> on the full names. When
  no embedded integer exceeds \<open>2^53\<close> the names are ordered by the integers
  themselves, ties by \<open>localeCompare\<close>. When \<open>readdirSync\<close> succeeds, and \<open>statSync\<close>
  does on the entries that pass the extension filter, the names are those entries,
  rearranged. For every collation the group \<open>["2.jpg", "10.jpg", "1.jpg"]\<close> sorts to
  \<open>["1.jpg", "2.jpg", "10.jpg"]\<close>.
\<close>

theorem getImageFiles_order:
  assumes "\<And>a b. 0 < localeCompare d a b \<Longrightarrow> localeCompare d b a \<le> 0"
    and "\<And>a b e. localeCompare d a b \<le> 0 \<Longrightarrow> localeCompare d b e \<le> 0 \<Longrightarrow> localeCompare d a e \<le> 0"
  shows "sorted_wrt (\<lambda>a b. less_number (numKey a) (numKey b)
                        \<or> (numKey a = numKey b \<and> localeCompare d a b \<le> 0))
           (map img_name (getImageFiles d c dir))
       \<and> ((\<forall>nm \<in> set (map img_name (getImageFiles d c dir)). firstInteger nm \<le> 2 ^ 53) \<longrightarrow>
          sorted_wrt (\<lambda>a b. firstInteger a < firstInteger b
                        \<or> (firstInteger a = firstInteger b \<and> localeCompare d a b \<le> 0))
            (map img_name (getImageFiles d c dir)))
       \<and> (readdirSync d dir = Some files
            \<and> None \<notin> set (map (\<lambda>file. statSync d (path_join dir file))
                 (filter (\<lambda>file. extname_lower d file \<in> set (supportedFormats c)) files)) \<longrightarrow>
          mset (map img_name (getImageFiles d c dir))
            = mset (filter (\<lambda>file. extname_lower d file \<in> set (supportedFormats c)) files))
       \<and> map img_name (sort_by (compareFiles (localeCompare d))
            (map (toImageFile d dir) [''2.jpg'', ''10.jpg'', ''1.jpg'']))
          = [''1.jpg'', ''2.jpg'', ''10.jpg'']"
proof (intro conjI)
  let ?cmp = "compareFiles (localeCompare d)"
  let ?names = "map img_name (getImageFiles d c dir)"
  have s: "sorted_wrt (\<lambda>a b. ?cmp a b \<le> 0) (sort_by ?cmp as)" for as
  proof (rule sorted_sort_by)
    show "0 < ?cmp a b \<Longrightarrow> ?cmp b a \<le> 0" for a b
      using assms(1) by (rule compareFiles_total)
    show "?cmp a b \<le> 0 \<Longrightarrow> ?cmp b e \<le> 0 \<Longrightarrow> ?cmp a e \<le> 0" for a b e
      using assms(2) by (rule compareFiles_trans)
  qed
  have "sorted_wrt (\<lambda>a b. ?cmp a b \<le> 0) (getImageFiles d c dir)"
    by (simp add: getImageFiles_def Let_def s split: option.splits)
  then show k: "sorted_wrt (\<lambda>a b. less_number (numKey a) (numKey b)
                        \<or> (numKey a = numKey b \<and> localeCompare d a b \<le> 0)) ?names"
    by (simp add: sorted_wrt_map compareFiles_le)
  show "(\<forall>nm \<in> set ?names. firstInteger nm \<le> 2 ^ 53) \<longrightarrow>
          sorted_wrt (\<lambda>a b. firstInteger a < firstInteger b
                        \<or> (firstInteger a = firstInteger b \<and> localeCompare d a b \<le> 0)) ?names"
  proof
    assume b: "\<forall>nm \<in> set ?names. firstInteger nm \<le> 2 ^ 53"
    show "sorted_wrt (\<lambda>a b. firstInteger a < firstInteger b
                        \<or> (firstInteger a = firstInteger b \<and> localeCompare d a b \<le> 0)) ?names"
    proof (rule sorted_wrt_mono_rel [OF _ k])
      fix x y
      assume "x \<in> set ?names" and "y \<in> set ?names"
        and h: "less_number (numKey x) (numKey y) \<or> (numKey x = numKey y \<and> localeCompare d x y \<le> 0)"
      then have "numKey x = Fin (of_int (firstInteger x))" "numKey y = Fin (of_int (firstInteger y))"
        using b numKey_exact by blast+
      then show "firstInteger x < firstInteger y
                   \<or> (firstInteger x = firstInteger y \<and> localeCompare d x y \<le> 0)"
        using h by simp
    qed
  qed
next
  show "readdirSync d dir = Some files
            \<and> None \<notin> set (map (\<lambda>file. statSync d (path_join dir file))
                 (filter (\<lambda>file. extname_lower d file \<in> set (supportedFormats c)) files)) \<longrightarrow>
          mset (map img_name (getImageFiles d c dir))
            = mset (filter (\<lambda>file. extname_lower d file \<in> set (supportedFormats c)) files)"
  proof
    let ?kept = "filter (\<lambda>file. extname_lower d file \<in> set (supportedFormats c)) files"
    assume a: "readdirSync d dir = Some files
            \<and> None \<notin> set (map (\<lambda>file. statSync d (path_join dir file)) ?kept)"
    then have "getImageFiles d c dir = sort_by (compareFiles (localeCompare d)) (map (toImageFile d dir) ?kept)"
      by (simp add: getImageFiles_def Let_def)
    moreover have "mset (map img_name (sort_by cmp as)) = mset (map img_name as)"
      for cmp and as :: "ImageFile list"
      using mset_sort_by [of cmp as] by (metis mset_map)
    moreover have "map img_name (map (toImageFile d dir) ?kept) = ?kept"
      by (simp add: img_name_toImageFile comp_def)
    ultimately show "mset (map img_name (getImageFiles d c dir)) = mset ?kept"
      by (simp only:)
  qed
next
  show "map img_name (sort_by (compareFiles (localeCompare d))
            (map (toImageFile d dir) [''2.jpg'', ''10.jpg'', ''1.jpg'']))
          = [''1.jpg'', ''2.jpg'', ''10.jpg'']"
    by (simp add: compareFiles_sign img_name_toImageFile numKey_examples)
qed

text \<open>The example directory: the text file is dropped, ties keep the directory order.\<close>

lemma getImageFiles_example:
  "map img_name (getImageFiles exampleDisk defaultConfig ''scans'')
     = [''1.jpg'', ''b2.png'', ''a2.jpg'', ''10.jpg'']"
proof -
  have f: "firstInteger ''b2.png'' = 2" "firstInteger ''a2.jpg'' = 2"
      "firstInteger ''10.jpg'' = 10" "firstInteger ''1.jpg'' = 1"
    by (simp_all add: firstInteger_def first_digits_def is_digit_def decimal_def)
  have k: "numKey ''b2.png'' = Fin 2" "numKey ''a2.jpg'' = Fin 2"
      "numKey ''10.jpg'' = Fin 10" "numKey ''1.jpg'' = Fin 1"
    using numKey_exact [of "''b2.png''"] numKey_exact [of "''a2.jpg''"]
      numKey_exact [of "''10.jpg''"] numKey_exact [of "''1.jpg''"] f by simp_all
  show ?thesis
    by (simp add: getImageFiles_def exampleDisk_def defaultConfig_def Let_def compareFiles_sign
        img_name_toImageFile k)
qed

text \<open>The example directory, whose collation is consistent and whose integers are small.\<close>

theorem getImageFiles_order_witness:
  "sorted_wrt (\<lambda>a b. firstInteger a < firstInteger b
        \<or> (firstInteger a = firstInteger b \<and> localeCompare exampleDisk a b \<le> 0))
     (map img_name (getImageFiles exampleDisk defaultConfig ''scans''))
   \<and> mset (map img_name (getImageFiles exampleDisk defaultConfig ''scans''))
     = mset [''b2.png'', ''a2.jpg'', ''10.jpg'', ''1.jpg'']"
proof -
  have 1: "\<And>a b. 0 < localeCompare exampleDisk a b \<Longrightarrow> localeCompare exampleDisk b a \<le> 0"
    and 2: "\<And>a b e. localeCompare exampleDisk a b \<le> 0 \<Longrightarrow> localeCompare exampleDisk b e \<le> 0
        \<Longrightarrow> localeCompare exampleDisk a e \<le> 0"
    by (simp_all add: exampleDisk_def)
  have 4: "filter (\<lambda>file. extname_lower exampleDisk file \<in> set (supportedFormats defaultConfig))
         [''b2.png'', ''a2.jpg'', ''10.jpg'', ''notes.txt'', ''1.jpg'']
       = [''b2.png'', ''a2.jpg'', ''10.jpg'', ''1.jpg'']"
    by (simp add: exampleDisk_def defaultConfig_def)
  have 3: "readdirSync exampleDisk ''scans''
        = Some [''b2.png'', ''a2.jpg'', ''10.jpg'', ''notes.txt'', ''1.jpg'']
      \<and> None \<notin> set (map (\<lambda>file. statSync exampleDisk (path_join ''scans'' file))
           (filter (\<lambda>file. extname_lower exampleDisk file \<in> set (supportedFormats defaultConfig))
             [''b2.png'', ''a2.jpg'', ''10.jpg'', ''notes.txt'', ''1.jpg'']))"
    unfolding 4 by (simp add: exampleDisk_def)
  have 5: "\<forall>nm \<in> set (map img_name (getImageFiles exampleDisk defaultConfig ''scans'')).
      firstInteger nm \<le> 2 ^ 53"
    unfolding getImageFiles_example
    by (simp add: firstInteger_def first_digits_def is_digit_def decimal_def)
  from getImageFiles_order [of exampleDisk defaultConfig "''scans''"
      "[''b2.png'', ''a2.jpg'', ''10.jpg'', ''notes.txt'', ''1.jpg'']", OF 1 2] 3 4 5
  show ?thesis by simp
qed

text \<open>The integer \<open>2^53 + 1\<close> is not a double: it rounds to \<open>2^53\<close>.\<close>

lemma rnd_above_2_53: "rnd 9007199254740993 = 9007199254740992"
proof -
  have "rnd 9007199254740993 = of_int (round_half_even (9007199254740993 / 2 ^ 1)) * 2 ^ 1"
    by (rule rnd_whole) simp_all
  moreover have "round_half_even (9007199254740993 / 2 ^ 1) = 4503599627370496"
    by (rule rhe_tie_even) simp_all
  ultimately show ?thesis by simp
qed

text \<open>
  C7 as stated fails above \<open>2^53\<close>: the names \<open>a9007199254740993.jpg\<close> and
  \<open>b9007199254740992.jpg\<close> get the same key, the collation decides by their first
  letters, and the name with the larger integer comes first.
\<close>

theorem getImageFiles_order_counterexample:
  "map img_name (getImageFiles bigDisk defaultConfig ''scans'')
     = [''a9007199254740993.jpg'', ''b9007199254740992.jpg'']
   \<and> firstInteger ''a9007199254740993.jpg'' = 9007199254740993
   \<and> firstInteger ''b9007199254740992.jpg'' = 9007199254740992"
proof -
  have f: "firstInteger ''a9007199254740993.jpg'' = 9007199254740993"
      "firstInteger ''b9007199254740992.jpg'' = 9007199254740992"
    by (simp_all add: firstInteger_def first_digits_def is_digit_def decimal_def)
  have "fl 9007199254740993 = Fin (rnd 9007199254740993)"
    by (rule fl_finite_pow [of _ 54]) simp_all
  then have a: "numKey ''a9007199254740993.jpg'' = Fin 9007199254740992"
    by (simp add: numKey_fl f rnd_above_2_53)
  have b: "numKey ''b9007199254740992.jpg'' = Fin 9007199254740992"
    using numKey_exact [of "''b9007199254740992.jpg''"] f by simp
  have "map img_name (getImageFiles bigDisk defaultConfig ''scans'')
     = [''a9007199254740993.jpg'', ''b9007199254740992.jpg'']"
    by (simp add: getImageFiles_def bigDisk_def exampleDisk_def defaultConfig_def Let_def
        compareFiles_sign img_name_toImageFile a b)
  then show ?thesis using f by simp
qed

section \<open>Properties of the document assembly\<close>

lemma registered_returns:
  assumes "map_of pageFormats pageFormat = Some p"
  shows "\<exists>l. calculateOptimalLayout c imgWidth imgHeight pageFormat = Inr l
           \<and> l_pageWidth l = Some (Fin (pf_width p))
           \<and> l_pageHeight l = Some (Fin (pf_height p))"
  using assms
  by (simp add: calculateOptimalLayout_def registered_lookup Let_def split: prod.splits)

lemma doc_warn [simp]: "doc (warn x s) = doc s"
  by (simp add: warn_def)

lemma tempDir_warn [simp]: "tempDir (warn x s) = tempDir s"
  by (simp add: warn_def)

lemma warnings_warn [simp]: "warnings (warn x s) = warnings s @ [x]"
  by (simp add: warn_def)

lemma skipped_append [simp]: "skipped (xs @ ys) = skipped xs @ skipped ys"
  by (induction xs rule: skipped.induct) simp_all

lemma getImageDimensions_state:
  "doc (snd (getImageDimensions w path s)) = doc s"
  "tempDir (snd (getImageDimensions w path s)) = tempDir s"
  "skipped (warnings (snd (getImageDimensions w path s))) = skipped (warnings s)"
  by (simp_all add: getImageDimensions_def split: option.splits)

lemma draw_after_addPage:
  "doc (draw d2 (draw d1 (addPage sz s))) = doc s @ [\<lparr>pg_size = sz, pg_ops = [d1, d2]\<rparr>]"
  "doc (draw d1 (addPage sz s)) = doc s @ [\<lparr>pg_size = sz, pg_ops = [d1]\<rparr>]"
  by (simp_all add: draw_def addPage_def)

lemma tempDir_draw [simp]: "tempDir (draw d s) = tempDir s"
  by (simp add: draw_def)

lemma tempDir_addPage [simp]: "tempDir (addPage sz s) = tempDir s"
  by (simp add: addPage_def)

lemma file_content_cong: "tempDir s = tempDir t \<Longrightarrow> file_content s path = file_content t path"
  by (simp add: file_content_def)

text \<open>
  With a registered format, one image adds one page: the configured size, the
  background, and the image unless \<open>doc.image\<close> throws.
\<close>

lemma processImage_page:
  assumes "map_of pageFormats (pageSize c) = Some p"
  shows "\<exists>pg. doc (processImage w c s f) = doc s @ [pg]
           \<and> pg_size pg = pageSize c
           \<and> hd (pg_ops pg) = background c p
           \<and> shown pg = (if image_throws w (img_fullPath f) then []
                          else [file_content s (img_fullPath f)])"
    and "tempDir (processImage w c s f) = tempDir s"
proof -
  obtain dims s1 where g: "getImageDimensions w (img_fullPath f) s = (dims, s1)"
    by (cases "getImageDimensions w (img_fullPath f) s")
  then have d: "doc s1 = doc s" and t: "tempDir s1 = tempDir s"
    using getImageDimensions_state(1,2) [of w "img_fullPath f" s] by simp_all
  obtain l where l: "calculateOptimalLayout c (dim_width dims) (dim_height dims) (pageSize c) = Inr l"
    "l_pageWidth l = Some (Fin (pf_width p))" "l_pageHeight l = Some (Fin (pf_height p))"
    using registered_returns [OF assms] by blast
  have fc: "file_content (draw d1 (addPage sz s1)) path = file_content s path" for d1 sz path
    by (rule file_content_cong) (simp add: t)
  show "\<exists>pg. doc (processImage w c s f) = doc s @ [pg]
           \<and> pg_size pg = pageSize c
           \<and> hd (pg_ops pg) = background c p
           \<and> shown pg = (if image_throws w (img_fullPath f) then []
                          else [file_content s (img_fullPath f)])"
    using g d l
    by (simp add: processImage_def Let_def draw_after_addPage background_def shown_def fc)
  show "tempDir (processImage w c s f) = tempDir s"
    using g t l by (simp add: processImage_def Let_def)
qed

lemma foldl_processImage_pages:
  assumes "map_of pageFormats (pageSize c) = Some p"
  shows "\<exists>pgs. doc (foldl (processImage w c) s fs) = doc s @ pgs
           \<and> length pgs = length fs
           \<and> (\<forall>pg \<in> set pgs. pg_size pg = pageSize c \<and> hd (pg_ops pg) = background c p)
           \<and> map shown pgs = map (\<lambda>f. if image_throws w (img_fullPath f) then []
                                        else [file_content s (img_fullPath f)]) fs"
proof (induction fs arbitrary: s)
  case Nil
  then show ?case by simp
next
  case (Cons f fs)
  obtain pg where pg: "doc (processImage w c s f) = doc s @ [pg]"
    "pg_size pg = pageSize c" "hd (pg_ops pg) = background c p"
    "shown pg = (if image_throws w (img_fullPath f) then [] else [file_content s (img_fullPath f)])"
    using processImage_page(1) [OF assms] by blast
  have t: "tempDir (processImage w c s f) = tempDir s"
    by (rule processImage_page(2) [OF assms])
  obtain pgs where pgs: "doc (foldl (processImage w c) (processImage w c s f) fs)
      = doc (processImage w c s f) @ pgs" "length pgs = length fs"
    "\<forall>pg \<in> set pgs. pg_size pg = pageSize c \<and> hd (pg_ops pg) = background c p"
    "map shown pgs = map (\<lambda>f'. if image_throws w (img_fullPath f') then []
        else [file_content (processImage w c s f) (img_fullPath f')]) fs"
    using Cons.IH by blast
  have fc: "file_content (processImage w c s f) path = file_content s path" for path
    by (rule file_content_cong [OF t])
  show ?case
    by (rule exI [of _ "pg # pgs"]) (simp add: pg pgs fc)
qed

lemma compressImages_names:
  "map img_name (fst (compressImages w c images s)) = map img_name images"
proof (induction images arbitrary: s)
  case Nil
  then show ?case by simp
next
  case (Cons img images)
  obtain q s1 where q: "compressImage w (img_fullPath img) s = (q, s1)"
    by (cases "compressImage w (img_fullPath img) s")
  obtain rest s2 where r: "compressImages w c images s1 = (rest, s2)"
    by (cases "compressImages w c images s1")
  obtain rest' s2' where r': "compressImages w c images s = (rest', s2')"
    by (cases "compressImages w c images s")
  show ?case using q r r' Cons.IH [of s1] Cons.IH [of s] by simp
qed

lemma compressImages_off:
  "\<not> preCompressImages c \<Longrightarrow> compressImages w c images s = (images, s)"
  by (induction images) simp_all

lemma doc_cleanup: "doc (cleanup w s) = doc s"
  by (simp add: cleanup_def split: option.splits prod.splits)

lemma createPDF_outcome:
  "fst (createPDF w c images outputPath folderName s) =
     (if (tempDir s = None \<and> mkdir_throws w) \<or> stream_error w then Rejected
      else Resolved outputPath)"
  by (simp add: createPDF_def Let_def split: prod.splits)

lemma createPDF_doc:
  assumes "\<not> (tempDir s = None \<and> mkdir_throws w)"
    and "compressImages w c images (if tempDir s = None then s\<lparr>tempDir := Some []\<rparr> else s)
           = (fs, s2)"
  shows "doc (snd (createPDF w c images outputPath folderName s))
      = doc (foldl (processImage w c) (s2\<lparr>doc := []\<rparr>) fs)"
  using assms
  by (cases "tempDir s"; cases "stream_error w") (simp_all add: createPDF_def Let_def doc_cleanup)

text \<open>
  What does hold of the pages: with a registered page format a \<open>createPDF\<close> that
  resolves leaves one page per image, each of the configured size and starting with
  the full-page background; without pre-compression the \<open>i\<close>-th page shows the \<open>i\<close>-th
  image, or nothing when \<open>doc.image\<close> throws for it.
\<close>

lemma createPDF_page_count:
  assumes "map_of pageFormats (pageSize c) = Some p"
    and "fst (createPDF w c images outputPath folderName s) = Resolved r"
  shows "length (doc (snd (createPDF w c images outputPath folderName s))) = length images"
    and "\<forall>pg \<in> set (doc (snd (createPDF w c images outputPath folderName s))).
           pg_size pg = pageSize c \<and> hd (pg_ops pg) = background c p"
proof -
  let ?s1 = "if tempDir s = None then s\<lparr>tempDir := Some []\<rparr> else s"
  obtain fs s2 where cs: "compressImages w c images ?s1 = (fs, s2)"
    by (cases "compressImages w c images ?s1")
  have ok: "\<not> (tempDir s = None \<and> mkdir_throws w)"
    using assms(2) unfolding createPDF_outcome by (simp split: if_splits)
  note d = createPDF_doc [OF ok cs, of outputPath folderName]
  have "length fs = length images"
    using compressImages_names [of w c images ?s1] cs by (metis fst_conv length_map)
  then show "length (doc (snd (createPDF w c images outputPath folderName s))) = length images"
    and "\<forall>pg \<in> set (doc (snd (createPDF w c images outputPath folderName s))).
           pg_size pg = pageSize c \<and> hd (pg_ops pg) = background c p"
    using foldl_processImage_pages [OF assms(1), of w "s2\<lparr>doc := []\<rparr>" fs] d by auto
qed

lemma createPDF_uncompressed_order:
  assumes "map_of pageFormats (pageSize c) = Some p"
    and "fst (createPDF w c images outputPath folderName s) = Resolved r"
    and "\<not> preCompressImages c" and "tempDir s = None"
  shows "map shown (doc (snd (createPDF w c images outputPath folderName s)))
       = map (\<lambda>img. if image_throws w (img_fullPath img) then [] else [img_fullPath img]) images"
proof -
  let ?s1 = "s\<lparr>tempDir := Some []\<rparr>"
  have cs: "compressImages w c images (if tempDir s = None then s\<lparr>tempDir := Some []\<rparr> else s)
      = (images, ?s1)"
    using assms(3,4) by (simp add: compressImages_off)
  have ok: "\<not> (tempDir s = None \<and> mkdir_throws w)"
    using assms(2) unfolding createPDF_outcome by (simp split: if_splits)
  note d = createPDF_doc [OF ok cs, of outputPath folderName]
  have fc: "file_content (?s1\<lparr>doc := []\<rparr>) path = path" for path
    by (simp add: file_content_def)
  show ?thesis
    using foldl_processImage_pages [OF assms(1), of w "?s1\<lparr>doc := []\<rparr>" images] d
    by (auto simp: fc)
qed

text \<open>The default page format, and the paths of the scratch files of the examples.\<close>

lemma A4_configured: "map_of pageFormats (pageSize defaultConfig)
    = Some \<lparr>pf_width = rnd 595.28, pf_height = rnd 841.89\<rparr>"
  by (simp add: defaultConfig_def pageFormats_def)

lemma scratch_paths:
  "path_join tempDirPath ''a_compressed.jpg'' = ''temp_compressed/a_compressed.jpg''"
  "path_join tempDirPath ''b_compressed.jpg'' = ''temp_compressed/b_compressed.jpg''"
  "path_join tempDirPath ''c_compressed.jpg'' = ''temp_compressed/c_compressed.jpg''"
  by (simp_all add: path_join_def path_normalize_def tempDirPath_def Let_def)

text \<open>
  C4. A group of N images should give N pages in the order of the group. The page
  count holds, but with pre-compression (the default) the copy of an image is written
  to \<open>basename_compressed.jpg\<close> in the scratch directory, and all copies are written
  before the first page is composed. For the group \<open>a.jpg\<close>, \<open>a.png\<close> both copies go
  to \<open>a_compressed.jpg\<close>, the second over the first, and both pages are drawn from
  that file: the first page shows the second image, and \<open>a.jpg\<close> is on no page.
\<close>

theorem createPDF_same_base_name:
  "fst (createPDF quietWorld defaultConfig clashGroup ''out.pdf'' ''scans'' emptyState)
     = Resolved ''out.pdf''
   \<and> map img_name clashGroup = [''a.jpg'', ''a.png'']
   \<and> map shown (doc (snd (createPDF quietWorld defaultConfig clashGroup ''out.pdf'' ''scans''
        emptyState))) = [[''a.png''], [''a.png'']]"
proof -
  let ?s1 = "emptyState\<lparr>tempDir := Some []\<rparr>"
  let ?s2 = "emptyState\<lparr>tempDir := Some [(''a_compressed.jpg'', ''a.png'')]\<rparr>"
  let ?fs = "[\<lparr>img_name = ''a.jpg'', img_fullPath = ''temp_compressed/a_compressed.jpg'',
                img_stats = \<lparr>st_size = 1024\<rparr>, img_originalPath = Some ''a.jpg'',
                img_compressed = Some True\<rparr>,
              \<lparr>img_name = ''a.png'', img_fullPath = ''temp_compressed/a_compressed.jpg'',
                img_stats = \<lparr>st_size = 1024\<rparr>, img_originalPath = Some ''a.png'',
                img_compressed = Some True\<rparr>]"
  have cs: "compressImages quietWorld defaultConfig clashGroup
      (if tempDir emptyState = None then emptyState\<lparr>tempDir := Some []\<rparr> else emptyState)
      = (?fs, ?s2)"
    by (simp add: compressImage_def getImageDimensions_def quietWorld_def defaultConfig_def
        clashGroup_def exampleImage_def emptyState_def Let_def scratch_paths)
  have ok: "\<not> (tempDir emptyState = None \<and> mkdir_throws quietWorld)"
    by (simp add: quietWorld_def)
  note d = createPDF_doc [OF ok cs, of "''out.pdf''" "''scans''"]
  have fc: "file_content (?s2\<lparr>doc := []\<rparr>) ''temp_compressed/a_compressed.jpg'' = ''a.png''"
    by (simp add: file_content_def emptyState_def scratch_paths)
  have nt: "\<not> image_throws quietWorld q" for q by (simp add: quietWorld_def)
  have "map shown (doc (snd (createPDF quietWorld defaultConfig clashGroup ''out.pdf'' ''scans''
        emptyState))) = [[''a.png''], [''a.png'']]"
    using foldl_processImage_pages [OF A4_configured, of quietWorld "?s2\<lparr>doc := []\<rparr>" ?fs] d fc
    by (auto simp: nt emptyState_def)
  moreover have "fst (createPDF quietWorld defaultConfig clashGroup ''out.pdf'' ''scans'' emptyState)
     = Resolved ''out.pdf''"
    by (simp add: createPDF_outcome quietWorld_def)
  ultimately show ?thesis by (simp add: clashGroup_def exampleImage_def)
qed

text \<open>With an unknown format, every image is skipped and no page is added.\<close>

lemma processImage_unknown:
  assumes "page_lookup (pageSize c) = Undefined"
  shows "doc (processImage w c s f) = doc s"
    and "skipped (warnings (processImage w c s f)) = skipped (warnings s) @ [img_name f]"
proof -
  obtain dims s1 where g: "getImageDimensions w (img_fullPath f) s = (dims, s1)"
    by (cases "getImageDimensions w (img_fullPath f) s")
  then have "doc s1 = doc s" and "skipped (warnings s1) = skipped (warnings s)"
    using getImageDimensions_state(1,3) [of w "img_fullPath f" s] by simp_all
  then show "doc (processImage w c s f) = doc s"
    and "skipped (warnings (processImage w c s f)) = skipped (warnings s) @ [img_name f]"
    using g by (simp_all add: processImage_def unknown_format_throws [OF assms])
qed

lemma foldl_processImage_unknown:
  assumes "page_lookup (pageSize c) = Undefined"
  shows "doc (foldl (processImage w c) s fs) = doc s
    \<and> skipped (warnings (foldl (processImage w c) s fs)) = skipped (warnings s) @ map img_name fs"
  by (induction fs arbitrary: s) (simp_all add: processImage_unknown [OF assms])

lemma compressImage_skipped:
  "skipped (warnings (snd (compressImage w path s))) = skipped (warnings s)"
proof -
  obtain dims s1 where g: "getImageDimensions w path s = (dims, s1)"
    by (cases "getImageDimensions w path s")
  then have "skipped (warnings s1) = skipped (warnings s)"
    using getImageDimensions_state(3) [of w path s] by simp
  then show ?thesis using g by (simp add: compressImage_def Let_def)
qed

lemma compressImages_skipped:
  "skipped (warnings (snd (compressImages w c images s))) = skipped (warnings s)"
proof (induction images arbitrary: s)
  case Nil
  then show ?case by simp
next
  case (Cons img images)
  obtain q s1 where q: "compressImage w (img_fullPath img) s = (q, s1)"
    by (cases "compressImage w (img_fullPath img) s")
  then have 1: "skipped (warnings s1) = skipped (warnings s)"
    using compressImage_skipped [of w "img_fullPath img" s] by simp
  obtain rest s2 where r: "compressImages w c images s1 = (rest, s2)"
    by (cases "compressImages w c images s1")
  then have 2: "skipped (warnings s2) = skipped (warnings s1)"
    using Cons.IH [of s1] by simp
  obtain rest' s2' where r': "compressImages w c images s = (rest', s2')"
    by (cases "compressImages w c images s")
  then have 3: "skipped (warnings s2') = skipped (warnings s)"
    using Cons.IH [of s] by simp
  show ?case using q r r' 1 2 3 by simp
qed

lemma skipped_cleanup: "skipped (warnings (cleanup w s)) = skipped (warnings s)"
  by (simp add: cleanup_def split: option.splits prod.splits)

lemma createPDF_unknown:
  assumes "page_lookup (pageSize c) = Undefined"
    and "\<not> (tempDir s = None \<and> mkdir_throws w)"
  shows "doc (snd (createPDF w c images outputPath folderName s)) = []"
    and "skipped (warnings (snd (createPDF w c images outputPath folderName s)))
          = skipped (warnings s) @ map img_name images"
proof -
  let ?s1 = "if tempDir s = None then s\<lparr>tempDir := Some []\<rparr> else s"
  obtain fs s2 where cs: "compressImages w c images ?s1 = (fs, s2)"
    by (cases "compressImages w c images ?s1")
  have n: "map img_name fs = map img_name images"
    using compressImages_names [of w c images ?s1] cs by simp
  have k: "skipped (warnings s2) = skipped (warnings s)"
    using compressImages_skipped [of w c images ?s1] cs by (simp split: if_splits)
  note f = foldl_processImage_unknown [OF assms(1), of w "s2\<lparr>doc := []\<rparr>" fs]
  show "doc (snd (createPDF w c images outputPath folderName s)) = []"
    using createPDF_doc [OF assms(2) cs] f by simp
  show "skipped (warnings (snd (createPDF w c images outputPath folderName s)))
          = skipped (warnings s) @ map img_name images"
    using assms(2) cs f n k
    by (cases "tempDir s"; cases "stream_error w")
       (simp_all add: createPDF_def Let_def skipped_cleanup)
qed

text \<open>
  C5 (as amended). When \<open>calculateOptimalLayout\<close> throws for the configured page
  format, the error is caught by the handler of each image: no page is added, every
  image of the group is attempted in turn and skipped with a warning, and the build is
  not aborted: \<open>createPDF\<close> resolves with the output path unless the stream itself
  fails.
\<close>

theorem unknown_format_recovered_per_image:
  assumes "page_lookup (pageSize c) = Undefined"
    and "\<not> (tempDir s = None \<and> mkdir_throws w)"
  shows "doc (snd (createPDF w c images outputPath folderName s)) = []
       \<and> skipped (warnings (snd (createPDF w c images outputPath folderName s)))
          = skipped (warnings s) @ map img_name images
       \<and> fst (createPDF w c images outputPath folderName s)
          = (if stream_error w then Rejected else Resolved outputPath)"
proof -
  have "fst (createPDF w c images outputPath folderName s)
          = (if stream_error w then Rejected else Resolved outputPath)"
    using assms(2) by (cases "tempDir s") (simp_all add: createPDF_outcome)
  then show ?thesis
    using createPDF_unknown(1) [OF assms, of images outputPath folderName]
      createPDF_unknown(2) [OF assms, of images outputPath folderName]
    by simp
qed

lemma B5_unknown: "page_lookup (pageSize (defaultConfig\<lparr>pageSize := ''B5''\<rparr>)) = Undefined"
  by (simp add: page_lookup_def pageFormats_def objectPrototypeKeys_def)

text \<open>Page size \<open>"B5"\<close>: no page, three skipped images.\<close>

theorem unknown_format_recovered_per_image_witness:
  "doc (snd (createPDF quietWorld (defaultConfig\<lparr>pageSize := ''B5''\<rparr>) exampleGroup
      ''out.pdf'' ''scans'' emptyState)) = []
   \<and> skipped (warnings (snd (createPDF quietWorld (defaultConfig\<lparr>pageSize := ''B5''\<rparr>)
        exampleGroup ''out.pdf'' ''scans'' emptyState))) = [''a.jpg'', ''b.jpg'', ''c.jpg'']"
  using unknown_format_recovered_per_image [OF B5_unknown,
      of emptyState quietWorld exampleGroup "''out.pdf''" "''scans''"]
  by (simp add: quietWorld_def emptyState_def exampleGroup_def exampleImage_def)

text \<open>
  C5 as stated says that the build of the group aborts. With page size \<open>"B5"\<close> the
  promise resolves, and the images after the first one are still attempted.
\<close>

theorem unknown_format_fatal_counterexample:
  "fst (createPDF quietWorld (defaultConfig\<lparr>pageSize := ''B5''\<rparr>) exampleGroup
      ''out.pdf'' ''scans'' emptyState) = Resolved ''out.pdf''
   \<and> skipped (warnings (snd (createPDF quietWorld (defaultConfig\<lparr>pageSize := ''B5''\<rparr>)
        exampleGroup ''out.pdf'' ''scans'' emptyState))) = [''a.jpg'', ''b.jpg'', ''c.jpg'']"
proof -
  have "\<not> (tempDir emptyState = None \<and> mkdir_throws quietWorld)"
    by (simp add: quietWorld_def)
  from createPDF_unknown(2) [OF B5_unknown this]
  show ?thesis
    by (simp add: createPDF_outcome quietWorld_def emptyState_def exampleGroup_def
        exampleImage_def)
qed

text \<open>The clean-up either removes the directory or warns.\<close>

lemma unlink_all_ok:
  "(\<And>file. \<not> unlink_throws w file) \<Longrightarrow> unlink_all w files = ([], True)"
  by (induction files) simp_all

lemma cleanup_removes:
  assumes "\<not> readdir_throws w" and "\<And>file. \<not> unlink_throws w file" and "\<not> rmdir_throws w"
  shows "tempDir (cleanup w s) = None"
  using assms(1,3) unlink_all_ok [of w, OF assms(2)]
  by (simp add: cleanup_def split: option.splits)

lemma cleanup_warns:
  "tempDir (cleanup w s) \<noteq> None \<Longrightarrow>
     warnings (cleanup w s) \<noteq> [] \<and> last (warnings (cleanup w s)) = CleanupWarning"
  by (auto simp: cleanup_def split: option.splits prod.splits if_splits)

lemma createPDF_resolved_state:
  assumes "fst (createPDF w c images outputPath folderName s) = Resolved r"
  shows "\<exists>s4. snd (createPDF w c images outputPath folderName s) = cleanup w s4"
  using assms
  by (cases "tempDir s"; cases "stream_error w"; cases "mkdir_throws w")
     (auto simp add: createPDF_def Let_def split: prod.splits)

text \<open>
  C9. After a \<open>createPDF\<close> that resolves, whatever happened while compressing: if no
  deletion throws, the scratch directory is gone; if it is still there, the last
  warning logged is that of the clean-up. The promise resolves with the output path,
  and it does so whichever deletions throw, so a failed deletion never changes the
  result.
\<close>

theorem scratch_directory_cleanup:
  assumes "fst (createPDF w c images outputPath folderName s) = Resolved r"
  shows "(\<not> readdir_throws w \<and> (\<forall>file. \<not> unlink_throws w file) \<and> \<not> rmdir_throws w \<longrightarrow>
            tempDir (snd (createPDF w c images outputPath folderName s)) = None)
       \<and> (tempDir (snd (createPDF w c images outputPath folderName s)) \<noteq> None \<longrightarrow>
            warnings (snd (createPDF w c images outputPath folderName s)) \<noteq> []
          \<and> last (warnings (snd (createPDF w c images outputPath folderName s))) = CleanupWarning)
       \<and> r = outputPath
       \<and> fst (createPDF (w\<lparr>readdir_throws := rd, unlink_throws := ul, rmdir_throws := rm\<rparr>)
                c images outputPath folderName s) = Resolved outputPath"
proof -
  obtain s4 where s4: "snd (createPDF w c images outputPath folderName s) = cleanup w s4"
    using createPDF_resolved_state [OF assms] by blast
  have "\<not> readdir_throws w \<and> (\<forall>file. \<not> unlink_throws w file) \<and> \<not> rmdir_throws w \<longrightarrow>
      tempDir (cleanup w s4) = None"
    using cleanup_removes [of w s4] by blast
  moreover have "tempDir (cleanup w s4) \<noteq> None \<longrightarrow>
      warnings (cleanup w s4) \<noteq> [] \<and> last (warnings (cleanup w s4)) = CleanupWarning"
    using cleanup_warns [of w s4] by blast
  moreover have "r = outputPath"
    and "fst (createPDF (w\<lparr>readdir_throws := rd, unlink_throws := ul, rmdir_throws := rm\<rparr>)
                c images outputPath folderName s) = Resolved outputPath"
    using assms by (simp_all add: createPDF_outcome split: if_splits)
  ultimately show ?thesis by (simp add: s4)
qed

text \<open>Composing the pages leaves the scratch directory as it is.\<close>

lemma tempDir_processImage:
  "tempDir (processImage w c s f) = tempDir s"
proof -
  obtain dims s1 where g: "getImageDimensions w (img_fullPath f) s = (dims, s1)"
    by (cases "getImageDimensions w (img_fullPath f) s")
  then have t: "tempDir s1 = tempDir s"
    using getImageDimensions_state(2) [of w "img_fullPath f" s] by simp
  show ?thesis using g t by (simp add: processImage_def Let_def split: sum.splits)
qed

lemma tempDir_foldl_processImage:
  "tempDir (foldl (processImage w c) s fs) = tempDir s"
  by (induction fs arbitrary: s) (simp_all add: tempDir_processImage)

text \<open>
  The directory is removed in the quiet world; where the second file cannot be
  deleted, it and the third stay behind, a warning is logged and the promise still
  resolves.
\<close>

theorem scratch_directory_cleanup_witness:
  "tempDir (snd (createPDF quietWorld defaultConfig exampleGroup ''out.pdf'' ''scans'' emptyState))
     = None
   \<and> (tempDir (snd (createPDF stickyWorld defaultConfig exampleGroup ''out.pdf'' ''scans''
          emptyState))
        = Some [(''b_compressed.jpg'', ''b.jpg''), (''c_compressed.jpg'', ''c.jpg'')]
      \<and> last (warnings (snd (createPDF stickyWorld defaultConfig exampleGroup
          ''out.pdf'' ''scans'' emptyState))) = CleanupWarning
      \<and> fst (createPDF stickyWorld defaultConfig exampleGroup ''out.pdf'' ''scans'' emptyState)
         = Resolved ''out.pdf'')"
proof -
  have q: "fst (createPDF quietWorld defaultConfig exampleGroup ''out.pdf'' ''scans'' emptyState)
      = Resolved ''out.pdf''"
    by (simp add: createPDF_outcome quietWorld_def)
  have s: "fst (createPDF stickyWorld defaultConfig exampleGroup ''out.pdf'' ''scans'' emptyState)
      = Resolved ''out.pdf''"
    by (simp add: createPDF_outcome stickyWorld_def quietWorld_def)
  have t: "tempDir (snd (createPDF stickyWorld defaultConfig exampleGroup ''out.pdf'' ''scans''
          emptyState))
        = Some [(''b_compressed.jpg'', ''b.jpg''), (''c_compressed.jpg'', ''c.jpg'')]"
    by (simp add: createPDF_def compressImage_def getImageDimensions_def
        cleanup_def stickyWorld_def quietWorld_def defaultConfig_def exampleGroup_def
        exampleImage_def emptyState_def Let_def scratch_paths warn_def
        tempDir_foldl_processImage)
  have nothrow: "\<not> readdir_throws quietWorld \<and> (\<forall>file. \<not> unlink_throws quietWorld file)
      \<and> \<not> rmdir_throws quietWorld"
    by (simp add: quietWorld_def)
  show ?thesis
    using scratch_directory_cleanup [OF q] scratch_directory_cleanup [OF s] nothrow t s
    by simp
qed

end
